theory Spec2Isabelle
  imports Complex_Main
begin

section \<open>The archive-and-replay engine of soramimi\<close>

text \<open>
  The development follows the timestamped version of the engine (its queue holds
  objects \<open>{samples, t}\<close>). The module's globals become one record that every operation
  takes and returns; \<open>Math.random()\<close> and \<open>Date.now()\<close> become arguments. A number is
  a real; every arithmetic operation of the code rounds its result to a double.
  Typed arrays live in an explicit heap, so that copying and sharing can be told apart.
  Writes to the page (status texts, CSS classes, button states) and console output are
  left out; each call of \<open>updateLog\<close> is recorded in a trace, whatever the page does
  with the message.

  The repository also holds an earlier version of the engine, without timestamps: it
  selects from the whole queue, its probabilistic loop waits for more than 50 entries,
  its guarantee timer has no shorter first delay, and its playback routine returns
  silently when it has nothing to play. That version is not modelled.
\<close>

subsection \<open>Numbers\<close>

text \<open>
  A JavaScript number is an IEEE 754 double: 53 significant bits, exponents from -1022,
  gradual underflow. \<open>toDouble\<close> rounds a real to the nearest double, a tie going to the
  double with the even significand; the arithmetic operators give the rounded exact
  result. Overflow to \<open>Infinity\<close> is left out: nothing the engine computes comes near
  \<open>2 ^ 1024\<close>. \<open>Math.floor\<close> and \<open>Math.round\<close> are exact on doubles (\<open>Math.round\<close> takes a
  tie upwards): they are \<open>\<lfloor>x\<rfloor>\<close> and \<open>\<lfloor>x + 1/2\<rfloor>\<close>, which is \<^const>\<open>round\<close>.
\<close>

definition roundHalfEven :: "real \<Rightarrow> int" where
  "roundHalfEven y =
     (let f = \<lfloor>y\<rfloor>
      in if y - of_int f < 1 / 2 then f
         else if 1 / 2 < y - of_int f then f + 1
         else if even f then f else f + 1)"

definition exponent :: "real \<Rightarrow> int" where
  "exponent x = (if x = 0 then - 1022 else max (- 1022) \<lfloor>log 2 \<bar>x\<bar>\<rfloor>)"

definition ulp :: "real \<Rightarrow> real" where
  "ulp x = 2 powr (of_int (exponent x) - 52)"

definition toDouble :: "real \<Rightarrow> real" where
  "toDouble x = of_int (roundHalfEven (x / ulp x)) * ulp x"

definition isDouble :: "real \<Rightarrow> bool" where
  "isDouble x = (toDouble x = x)"

definition fadd :: "real \<Rightarrow> real \<Rightarrow> real" where
  "fadd a b = toDouble (a + b)"

definition fsub :: "real \<Rightarrow> real \<Rightarrow> real" where
  "fsub a b = toDouble (a - b)"

definition fmul :: "real \<Rightarrow> real \<Rightarrow> real" where
  "fmul a b = toDouble (a * b)"

definition fdiv :: "real \<Rightarrow> real \<Rightarrow> real" where
  "fdiv a b = toDouble (a / b)"

text \<open>The spacing of the doubles next to 0.\<close>

definition smallest :: real where
  "smallest = 2 powr (- 1074)"

subsection \<open>Constants\<close>

definition MAX_ARCHIVE_SEGMENTS :: nat where
  "MAX_ARCHIVE_SEGMENTS = 300"

definition BUFFER_SIZE :: nat where
  "BUFFER_SIZE = 4096"

definition SEGMENT_MIN_SEC :: real where
  "SEGMENT_MIN_SEC = 2"

definition SEGMENT_MAX_SEC :: real where
  "SEGMENT_MAX_SEC = 5"

definition EXCLUDE_RECENT_MS :: int where
  "EXCLUDE_RECENT_MS = 4000"

subsection \<open>Data\<close>

type_synonym addr = nat

type_synonym float32array = "real list"

text \<open>A queue entry \<open>{samples, t}\<close>: a reference to a typed array and \<open>Date.now()\<close> at capture.\<close>

record segment =
  samples :: addr
  t :: int

datatype context_state = Suspended | Running | Closed

record audio_context =
  ctx_state :: context_state
  sampleRate :: real

datatype js_error = NotSupportedError | RangeError

text \<open>The messages passed to \<open>updateLog\<close>, with the values they are formatted from.\<close>

datatype notification =
    ArchiveUpdated nat
  | InputLevel
  | PlaybackSkipped
  | CandidatesRelaxed nat nat
  | Selected nat nat nat
  | PlaybackLength real int
  | BufferBuilt nat nat
  | PlaybackStarted
  | RandomTriggerStarted nat real
  | NextGuaranteed int

text \<open>One started replay: the buffer of its source node and the settings of its chain.\<close>

record playback =
  buffer :: addr
  filterFrequency :: real
  panValue :: real
  replayGain :: real

text \<open>The five values \<open>Math.random()\<close> returns during one run of the playback routine, in call order.\<close>

record draws =
  rStart :: real
  rDuration :: real
  rPanSide :: real
  rPanAmount :: real
  rCutoff :: real

record soramimi =
  audioContext :: "audio_context option"
  mediaStreamSource :: bool
  monitoringGain :: "real option"
  monitoringConnected :: bool
  ARCHIVE_QUEUE :: "segment list"
  TRIGGER_CHECK_INTERVAL :: nat
  TRIGGER_PROBABILITY :: real
  randomTriggerInterval :: "nat option"
  guaranteeTimer :: "int option"
  heap :: "float32array list"
  started :: "playback list"
  logged :: "notification list"

text \<open>The module as loaded: no context, an empty queue, the default trigger settings.\<close>

definition initial :: soramimi where
  "initial = \<lparr>audioContext = None, mediaStreamSource = False, monitoringGain = None,
     monitoringConnected = False, ARCHIVE_QUEUE = [], TRIGGER_CHECK_INTERVAL = 10000,
     TRIGGER_PROBABILITY = toDouble (5 / 100), randomTriggerInterval = None, guaranteeTimer = None,
     heap = [], started = [], logged = []\<rparr>"

definition updateLog :: "notification \<Rightarrow> soramimi \<Rightarrow> soramimi" where
  "updateLog message st = st\<lparr>logged := logged st @ [message]\<rparr>"

text \<open>Every array reachable from the queue has been allocated (references never dangle).\<close>

definition allocated :: "soramimi \<Rightarrow> bool" where
  "allocated st = list_all (\<lambda>seg. samples seg < length (heap st)) (ARCHIVE_QUEUE st)"

subsection \<open>Capture: \<open>archiveAudio\<close>\<close>

text \<open>
  \<open>new Float32Array(inputBuffer)\<close> allocates a copy of the block; the entry is pushed;
  one entry is shifted off the front when the queue has grown past the maximum; the
  log is updated at every tenth and every fiftieth length.
\<close>

definition archiveAudio :: "soramimi \<Rightarrow> float32array \<Rightarrow> int \<Rightarrow> soramimi" where
  "archiveAudio st inputBuffer now =
     (let segmentCopy = length (heap st);
          st1 = st\<lparr>heap := heap st @ [inputBuffer],
                   ARCHIVE_QUEUE := ARCHIVE_QUEUE st @ [\<lparr>samples = segmentCopy, t = now\<rparr>]\<rparr>;
          st2 = (if length (ARCHIVE_QUEUE st1) > MAX_ARCHIVE_SEGMENTS
                 then st1\<lparr>ARCHIVE_QUEUE := tl (ARCHIVE_QUEUE st1)\<rparr> else st1);
          st3 = (if length (ARCHIVE_QUEUE st2) mod 10 = 0
                 then updateLog (ArchiveUpdated (length (ARCHIVE_QUEUE st2))) st2 else st2)
      in if length (ARCHIVE_QUEUE st3) mod 50 = 0 then updateLog InputLevel st3 else st3)"

text \<open>A sequence of capture callbacks, each with its block and its clock reading.\<close>

fun archiveAudioCalls :: "soramimi \<Rightarrow> (float32array \<times> int) list \<Rightarrow> soramimi" where
  "archiveAudioCalls st [] = st"
| "archiveAudioCalls st (ev # evs) = archiveAudioCalls (archiveAudio st (fst ev) (snd ev)) evs"

text \<open>
  The entries those callbacks push, in call order: the k-th one refers to the k-th
  array allocated after \<open>base\<close> and carries the k-th clock reading.
\<close>

fun appended :: "addr \<Rightarrow> (float32array \<times> int) list \<Rightarrow> segment list" where
  "appended base [] = []"
| "appended base (ev # evs) = \<lparr>samples = base, t = snd ev\<rparr> # appended (Suc base) evs"

subsection \<open>Selection\<close>

text \<open>
  The loop over the queue that collects candidate indices: an entry whose \<open>t\<close> is
  falsy (zero) is skipped, an entry older than the exclusion window is kept.
\<close>

definition candidateIndices :: "segment list \<Rightarrow> int \<Rightarrow> nat list" where
  "candidateIndices q now =
     filter (\<lambda>i. t (q ! i) \<noteq> 0 \<and> now - t (q ! i) > EXCLUDE_RECENT_MS) [0..<length q]"

text \<open>The start index and the message logged with it; \<open>r\<close> is the value of \<open>Math.random()\<close>.\<close>

definition chooseStartIndex :: "segment list \<Rightarrow> int \<Rightarrow> real \<Rightarrow> nat \<times> notification" where
  "chooseStartIndex q now r =
     (let segmentCount = length q;
          candidates = candidateIndices q now
      in if length candidates = 0
         then (let startIndex = nat \<lfloor>fmul r (real segmentCount)\<rfloor>
               in (startIndex, CandidatesRelaxed startIndex segmentCount))
         else (let startIndex = candidates ! nat \<lfloor>fmul r (real (length candidates))\<rfloor>
               in (startIndex, Selected startIndex (length candidates) segmentCount)))"

definition durationSec :: "real \<Rightarrow> real" where
  "durationSec r = fadd SEGMENT_MIN_SEC (fmul r (fsub SEGMENT_MAX_SEC SEGMENT_MIN_SEC))"

text \<open>
  \<open>Math.round(durationSec * sampleRate / BUFFER_SIZE) * BUFFER_SIZE\<close>, evaluated from left
  to right; the value is an integer, given as such.
\<close>

definition segmentLength :: "real \<Rightarrow> real \<Rightarrow> int" where
  "segmentLength rate dur =
     \<lfloor>fmul (of_int (round (fdiv (fmul dur rate) (real BUFFER_SIZE)))) (real BUFFER_SIZE)\<rfloor>"

text \<open>
  The fragment as the specification describes it (section 4.2, step 4): the blocks of
  the queue from \<open>startIndex\<close> on, wrapping around, at most \<open>BUFFER_SIZE\<close> samples of each,
  one after the other and cut at \<open>len\<close> samples; what the queue cannot fill stays 0.
\<close>

definition fragment :: "float32array list \<Rightarrow> segment list \<Rightarrow> nat \<Rightarrow> nat \<Rightarrow> float32array" where
  "fragment h q startIndex len =
     (let visited = map (\<lambda>i. take BUFFER_SIZE (h ! samples (q ! ((startIndex + i) mod length q))))
                      [0..<length q];
          copied = take len (concat visited)
      in copied @ replicate (len - length copied) 0)"

subsection \<open>The platform's arrays\<close>

text \<open>
  \<open>createBuffer\<close> of the Web Audio API raises NotSupportedError for a length that is not
  positive, and gives a zero-filled channel otherwise.
\<close>

definition createBuffer :: "int \<Rightarrow> js_error + float32array" where
  "createBuffer len = (if len \<le> 0 then Inl NotSupportedError else Inr (replicate (nat len) 0))"

text \<open>\<open>target.set(source, offset)\<close> raises RangeError when the source does not fit.\<close>

definition typedArraySet :: "float32array \<Rightarrow> float32array \<Rightarrow> nat \<Rightarrow> js_error + float32array" where
  "typedArraySet target source offset =
     (if offset + length source > length target then Inl RangeError
      else Inr (take offset target @ source @ drop (offset + length source) target))"

text \<open>
  The copy loop, on the heap: \<open>outputData\<close> is the address of the channel being
  filled, \<open>i\<close> and \<open>offset\<close> are the loop's variables. An entry without an array is
  passed over, as \<open>if (!segment) continue\<close> does.
\<close>

function copyLoop ::
  "segment list \<Rightarrow> nat \<Rightarrow> nat \<Rightarrow> addr \<Rightarrow> nat \<Rightarrow> nat \<Rightarrow> float32array list
     \<Rightarrow> js_error + (float32array list \<times> nat)" where
  "copyLoop q startIndex len outputData i offset h =
     (if offset < len \<and> i < length q then
        (let segObj = q ! ((startIndex + i) mod length q)
         in if length h \<le> samples segObj
            then copyLoop q startIndex len outputData (Suc i) offset h
            else (let segment = h ! samples segObj;
                      copyLength = min BUFFER_SIZE (min (len - offset) (length segment))
                  in case typedArraySet (h ! outputData) (take copyLength segment) offset of
                       Inl e \<Rightarrow> Inl e
                     | Inr out \<Rightarrow>
                         copyLoop q startIndex len outputData (Suc i) (offset + copyLength)
                           (h[outputData := out])))
      else Inr (h, offset))"
  by pat_completeness auto
termination
  by (relation "measure (\<lambda>(q, startIndex, len, outputData, i, offset, h). length q - i)") auto

declare copyLoop.simps [simp del]

subsection \<open>Playback: \<open>playRandomSoraMimi\<close>\<close>

text \<open>The monitoring path is connected once; the monitoring gain is set to 1 in either case.\<close>

definition ensureMonitoring :: "soramimi \<Rightarrow> soramimi" where
  "ensureMonitoring st =
     (if \<not> monitoringConnected st \<and> mediaStreamSource st \<and> monitoringGain st \<noteq> None
      then st\<lparr>monitoringGain := Some 1, monitoringConnected := True\<rparr>
      else if monitoringGain st \<noteq> None then st\<lparr>monitoringGain := Some 1\<rparr>
      else st)"

text \<open>The guard at the head of the routine.\<close>

definition canPlay :: "soramimi \<Rightarrow> bool" where
  "canPlay st =
     (case audioContext st of
        None \<Rightarrow> False
      | Some ctx \<Rightarrow> ctx_state ctx = Running \<and> length (ARCHIVE_QUEUE st) \<noteq> 0)"

text \<open>The chain of a replay: low-pass cutoff, pan to one side, replay gain.\<close>

definition replayNode :: "draws \<Rightarrow> addr \<Rightarrow> playback" where
  "replayNode d outputData =
     \<lparr>buffer = outputData,
      filterFrequency = fadd 3000 (fmul (rCutoff d) 1000),
      panValue = (if rPanSide d > 1 / 2
                  then fadd (fmul (rPanAmount d) (toDouble (6 / 10))) (toDouble (2 / 10))
                  else - fadd (fmul (rPanAmount d) (toDouble (6 / 10))) (toDouble (2 / 10))),
      replayGain = toDouble (9 / 10)\<rparr>"

text \<open>
  The routine returns the globals as it leaves them and the exception it raised, if
  any. What it did before raising stays done.
\<close>

definition playRandomSoraMimi :: "soramimi \<Rightarrow> draws \<Rightarrow> int \<Rightarrow> soramimi \<times> js_error option" where
  "playRandomSoraMimi st d now =
     (if \<not> canPlay st then (updateLog PlaybackSkipped st, None)
      else
        (let rate = sampleRate (the (audioContext st));
             st1 = ensureMonitoring st;
             segmentCount = length (ARCHIVE_QUEUE st1);
             (startIndex, message) = chooseStartIndex (ARCHIVE_QUEUE st1) now (rStart d);
             st2 = updateLog message st1;
             dur = durationSec (rDuration d);
             len = segmentLength rate dur;
             st3 = updateLog (PlaybackLength dur len) st2
         in case createBuffer len of
              Inl e \<Rightarrow> (st3, Some e)
            | Inr channel \<Rightarrow>
                (let outputData = length (heap st3);
                     h1 = heap st3 @ [channel]
                 in case copyLoop (ARCHIVE_QUEUE st3) startIndex (nat len) outputData 0 0 h1 of
                      Inl e \<Rightarrow> (st3\<lparr>heap := h1\<rparr>, Some e)
                    | Inr (h2, offset) \<Rightarrow>
                        (let st4 = updateLog (BufferBuilt (length (h2 ! outputData)) offset)
                                     (st3\<lparr>heap := h2\<rparr>);
                             st5 = st4\<lparr>started := started st4 @ [replayNode d outputData]\<rparr>
                         in (updateLog PlaybackStarted st5, None)))))"

subsection \<open>The two triggers\<close>

definition startRandomTrigger :: "soramimi \<Rightarrow> soramimi" where
  "startRandomTrigger st =
     (let st1 = (if randomTriggerInterval st \<noteq> None then st\<lparr>randomTriggerInterval := None\<rparr> else st);
          st2 = st1\<lparr>randomTriggerInterval := Some (TRIGGER_CHECK_INTERVAL st1)\<rparr>
      in updateLog (RandomTriggerStarted (TRIGGER_CHECK_INTERVAL st2) (TRIGGER_PROBABILITY st2)) st2)"

text \<open>The function given to \<open>setInterval\<close>; \<open>randomValue\<close> is its draw.\<close>

definition randomTriggerTick :: "soramimi \<Rightarrow> real \<Rightarrow> draws \<Rightarrow> int \<Rightarrow> soramimi \<times> js_error option" where
  "randomTriggerTick st randomValue d now =
     (if randomValue < TRIGGER_PROBABILITY st \<and> length (ARCHIVE_QUEUE st) > 10
      then playRandomSoraMimi st d now
      else (st, None))"

text \<open>The delay drawn by \<open>scheduleNextGuaranteedTrigger\<close>, in milliseconds.\<close>

definition nextMs :: "bool \<Rightarrow> real \<Rightarrow> int" where
  "nextMs isFirst r = (if isFirst then \<lfloor>fmul r 30000\<rfloor> + 1000 else \<lfloor>fmul r 60000\<rfloor> + 1000)"

definition scheduleNextGuaranteedTrigger :: "bool \<Rightarrow> soramimi \<Rightarrow> real \<Rightarrow> soramimi" where
  "scheduleNextGuaranteedTrigger isFirst st r =
     (let st1 = (if guaranteeTimer st \<noteq> None then st\<lparr>guaranteeTimer := None\<rparr> else st);
          ms = nextMs isFirst r;
          st2 = st1\<lparr>guaranteeTimer := Some ms\<rparr>
      in updateLog (NextGuaranteed (round (fdiv (of_int ms) 1000))) st2)"

text \<open>
  The function given to \<open>setTimeout\<close>: the guarded call sits in \<open>try\<close>, the next timer
  is set in \<open>finally\<close>, and an exception of the call leaves the function afterwards.
  \<open>r\<close> is the draw of the rescheduling.
\<close>

definition guaranteeTimerFired :: "soramimi \<Rightarrow> draws \<Rightarrow> int \<Rightarrow> real \<Rightarrow> soramimi \<times> js_error option" where
  "guaranteeTimerFired st d now r =
     (let (st1, raised) =
            (case audioContext st of
               None \<Rightarrow> (st, None)
             | Some ctx \<Rightarrow>
                 if ctx_state ctx = Running \<and> length (ARCHIVE_QUEUE st) > 0
                 then playRandomSoraMimi st d now else (st, None))
      in (scheduleNextGuaranteedTrigger False st1 r, raised))"

subsection \<open>Sample sessions\<close>

text \<open>
  A running session that has captured two blocks, 1000 ms and 907 ms before the clock
  reads 6000; the same session on a context whose sample rate is so low that the
  computed fragment length is 0; and one set of draws.
\<close>

definition young_session :: soramimi where
  "young_session = initial\<lparr>audioContext := Some \<lparr>ctx_state = Running, sampleRate = 44100\<rparr>,
     ARCHIVE_QUEUE := [\<lparr>samples = 0, t = 5000\<rparr>, \<lparr>samples = 1, t = 5093\<rparr>],
     heap := [[1 / 4, - (1 / 4)], [1 / 8, 0]]\<rparr>"

definition tiny_rate_session :: soramimi where
  "tiny_rate_session = young_session\<lparr>audioContext := Some \<lparr>ctx_state = Running, sampleRate = 100\<rparr>\<rparr>"

definition middle_draws :: draws where
  "middle_draws = \<lparr>rStart = 1 / 2, rDuration = 1 / 2, rPanSide = 1 / 2, rPanAmount = 1 / 2,
     rCutoff = 1 / 2\<rparr>"

section \<open>Rounding to doubles\<close>

lemma roundHalfEven_of_int [simp]: "roundHalfEven (of_int k) = k"
  by (simp add: roundHalfEven_def)

lemma roundHalfEven_error: "\<bar>of_int (roundHalfEven y) - y\<bar> \<le> 1 / 2"
proof -
  have "of_int \<lfloor>y\<rfloor> \<le> y" and "y < of_int \<lfloor>y\<rfloor> + 1"
    by linarith+
  then show ?thesis
    by (auto simp: roundHalfEven_def Let_def)
qed

lemma roundHalfEven_nonneg: "0 \<le> y \<Longrightarrow> 0 \<le> roundHalfEven y"
  by (auto simp: roundHalfEven_def Let_def)

lemma ulp_pos: "0 < ulp x"
  by (simp add: ulp_def)

lemma toDouble_0 [simp]: "toDouble 0 = 0"
  using roundHalfEven_of_int [of 0] by (simp add: toDouble_def)

lemma toDouble_nonneg: "0 \<le> x \<Longrightarrow> 0 \<le> toDouble x"
  using ulp_pos [of x] by (simp add: toDouble_def roundHalfEven_nonneg)

lemma toDouble_error_ulp: "\<bar>toDouble x - x\<bar> \<le> ulp x / 2"
proof -
  define k where "k = real_of_int (roundHalfEven (x / ulp x))"
  have u: "0 < ulp x" by (rule ulp_pos)
  then have "toDouble x - x = (k - x / ulp x) * ulp x"
    by (simp add: toDouble_def k_def left_diff_distrib)
  then have "\<bar>toDouble x - x\<bar> = \<bar>k - x / ulp x\<bar> * ulp x"
    using u by (simp add: abs_mult)
  also have "\<dots> \<le> 1 / 2 * ulp x"
    unfolding k_def using u by (intro mult_right_mono roundHalfEven_error) simp
  finally show ?thesis by simp
qed

lemma smallest_pos: "0 < smallest"
  by (simp add: smallest_def)

lemma ulp_le: "ulp x \<le> \<bar>x\<bar> * 2 powr (- 52) + smallest"
proof (cases "- 1022 \<le> \<lfloor>log 2 \<bar>x\<bar>\<rfloor> \<and> x \<noteq> 0")
  case True
  then have "exponent x = \<lfloor>log 2 \<bar>x\<bar>\<rfloor>"
    by (simp add: exponent_def)
  then have "ulp x = 2 powr of_int \<lfloor>log 2 \<bar>x\<bar>\<rfloor> * 2 powr (- 52)"
    by (simp only: ulp_def diff_conv_add_uminus powr_add)
  moreover have "2 powr of_int \<lfloor>log 2 \<bar>x\<bar>\<rfloor> \<le> 2 powr log 2 \<bar>x\<bar>"
    by (intro powr_mono) simp_all
  moreover from True have "2 powr log 2 \<bar>x\<bar> = \<bar>x\<bar>" by simp
  ultimately have "ulp x \<le> \<bar>x\<bar> * 2 powr (- 52)"
    by (simp only: mult_right_mono powr_ge_zero)
  with smallest_pos show ?thesis by linarith
next
  case False
  then have "exponent x = - 1022"
    by (auto simp: exponent_def)
  then have "ulp x = smallest"
    by (simp add: ulp_def smallest_def)
  moreover have "0 \<le> \<bar>x\<bar> * 2 powr (- 52)" by simp
  ultimately show ?thesis by linarith
qed

lemma toDouble_error: "\<bar>toDouble x - x\<bar> \<le> \<bar>x\<bar> * 2 powr (- 53) + smallest / 2"
proof -
  have "(2 :: real) powr (- 52) = 2 powr (- 53) * 2 powr 1"
    by (simp only: powr_add [symmetric]) simp
  then have "\<bar>x\<bar> * 2 powr (- 52) = 2 * (\<bar>x\<bar> * 2 powr (- 53))"
    by simp
  with toDouble_error_ulp [of x] ulp_le [of x] show ?thesis
    by linarith
qed

lemma exponent_eqI:
  assumes "2 powr of_int e \<le> \<bar>x\<bar>" and "\<bar>x\<bar> < 2 powr (of_int e + 1)" and "- 1022 \<le> e"
  shows "exponent x = e"
proof -
  from assms(1) have nz: "x \<noteq> 0"
    by (smt (verit) abs_zero powr_gt_zero)
  then have pos: "0 < \<bar>x\<bar>" by simp
  have "\<lfloor>log 2 \<bar>x\<bar>\<rfloor> = e"
  proof (rule floor_unique)
    from assms(1) pos show "of_int e \<le> log 2 \<bar>x\<bar>"
      by (simp add: le_log_iff)
    from assms(2) pos show "log 2 \<bar>x\<bar> < of_int e + 1"
      by (simp add: log_less_iff)
  qed
  with nz assms(3) show ?thesis
    by (simp add: exponent_def)
qed

lemma toDouble_eval:
  assumes "2 powr of_int e \<le> \<bar>x\<bar>" and "\<bar>x\<bar> < 2 powr (of_int e + 1)" and "- 1022 \<le> e"
  shows "toDouble x = of_int (roundHalfEven (x / 2 powr (of_int e - 52))) * 2 powr (of_int e - 52)"
  by (simp add: toDouble_def ulp_def exponent_eqI [OF assms])

lemma toDouble_exact:
  assumes x: "x = of_int m * 2 powr of_int j" and m: "\<bar>m\<bar> < 2 ^ 53" and j: "- 1074 \<le> j"
  shows "toDouble x = x"
proof (cases "m = 0")
  case True
  with x show ?thesis by simp
next
  case False
  with x have nz: "x \<noteq> 0" by simp
  define e where "e = exponent x"
  have "e \<le> j + 52"
  proof -
    have "\<bar>x\<bar> = \<bar>of_int m\<bar> * 2 powr of_int j"
      by (simp add: x abs_mult)
    also have "\<dots> < 2 ^ 53 * 2 powr of_int j"
    proof (rule mult_strict_right_mono)
      from m have "real_of_int \<bar>m\<bar> < real_of_int (2 ^ 53)"
        by (simp only: of_int_less_iff)
      then show "\<bar>real_of_int m\<bar> < 2 ^ 53" by simp
    qed simp
    also have "\<dots> = 2 powr (53 + of_int j)"
      by (simp add: powr_add)
    finally have "log 2 \<bar>x\<bar> < 53 + of_int j"
      using nz by (simp add: log_less_iff)
    then have "\<lfloor>log 2 \<bar>x\<bar>\<rfloor> < 53 + j"
      by (simp add: floor_less_iff)
    with j nz show ?thesis
      by (simp add: e_def exponent_def)
  qed
  define n where "n = nat (j + 52 - e)"
  with \<open>e \<le> j + 52\<close> have n: "real n = of_int j + 52 - of_int e"
    by simp
  have "2 powr of_int j = 2 powr real n * 2 powr (of_int e - 52)"
    by (simp only: powr_add [symmetric] n) simp
  also have "2 powr real n = (2 :: real) ^ n"
    by (simp add: powr_realpow)
  finally have "x = of_int (m * 2 ^ n) * ulp x"
    by (simp add: x ulp_def e_def)
  moreover from this have "x / ulp x = of_int (m * 2 ^ n)"
    using ulp_pos [of x] by (simp add: field_simps)
  ultimately show ?thesis
    by (simp only: toDouble_def roundHalfEven_of_int)
qed

lemma isDouble_below_one:
  assumes "isDouble r" and "r < 1"
  shows "r \<le> 1 - 2 powr (- 53)"
proof (cases "r \<le> 1 / 2")
  case True
  have "(2 :: real) powr (- 53) \<le> 2 powr (- 1)"
    by (intro powr_mono) simp_all
  then have "(2 :: real) powr (- 53) \<le> 1 / 2"
    by (simp add: powr_minus)
  with True show ?thesis by linarith
next
  case False
  then have "2 powr of_int (- 1) \<le> \<bar>r\<bar>" and "\<bar>r\<bar> < 2 powr (of_int (- 1) + 1)"
    using assms(2) by (simp_all add: powr_minus)
  then have "exponent r = - 1"
    by (rule exponent_eqI) simp
  then have u: "ulp r = 2 powr (- 53)"
    by (simp add: ulp_def)
  define k where "k = roundHalfEven (r / ulp r)"
  from assms(1) have r: "r = of_int k * 2 powr (- 53)"
    by (simp add: isDouble_def toDouble_def k_def u)
  have p: "(2 :: real) powr (- 53) * 2 ^ 53 = 1"
    by (simp add: powr_minus)
  from r assms(2) have "of_int k * 2 powr (- 53) * 2 ^ 53 < 1 * (2 :: real) ^ 53"
    by (intro mult_strict_right_mono) simp_all
  with p have "real_of_int k < 2 ^ 53"
    by (simp add: mult.assoc)
  then have "k < 2 ^ 53"
    by simp
  then have "k \<le> 2 ^ 53 - 1" by simp
  then have "real_of_int k \<le> real_of_int (2 ^ 53 - 1)"
    by (simp only: of_int_le_iff)
  then have "real_of_int k \<le> 2 ^ 53 - 1"
    by simp
  then have "real_of_int k * 2 powr (- 53) \<le> (2 ^ 53 - 1) * 2 powr (- 53)"
    by (intro mult_right_mono) simp_all
  also have "\<dots> = 1 - 2 powr (- 53)"
    using p by (simp add: left_diff_distrib mult.commute)
  finally show ?thesis
    by (simp add: r [symmetric])
qed

lemma scaled_below:
  assumes "isDouble r" and "0 \<le> r" and "r < 1" and "1 \<le> c"
  shows "toDouble (r * c) < c"
proof -
  define p :: real where "p = 2 powr (- 53)"
  have p: "0 < p" by (simp add: p_def)
  from isDouble_below_one [OF assms(1,3)] have "r \<le> 1 - p"
    by (simp add: p_def)
  with assms(4) have x: "r * c \<le> (1 - p) * c"
    by (simp add: mult_right_mono)
  from assms(2,4) have x0: "0 \<le> r * c" by simp
  from toDouble_error [of "r * c"] x0
  have "toDouble (r * c) \<le> r * c + r * c * p + smallest / 2"
    by (simp add: p_def abs_if split: if_splits)
  also have "r * c + r * c * p = r * c * (1 + p)"
    by (simp add: algebra_simps)
  also from x p have "r * c * (1 + p) \<le> (1 - p) * c * (1 + p)"
    by (simp add: mult_right_mono)
  also have "(1 - p) * c * (1 + p) = c - c * (p * p)"
    by (simp add: algebra_simps)
  finally have "toDouble (r * c) \<le> c - c * (p * p) + smallest / 2"
    by simp
  moreover have "smallest / 2 < c * (p * p)"
  proof -
    have "p * p = 2 powr (- 106)"
      by (simp add: p_def powr_add [symmetric])
    moreover have "smallest < 2 powr (- 106)"
      unfolding smallest_def by (intro powr_less_mono) simp_all
    moreover from assms(4) have "1 * 2 powr (- 106) \<le> c * 2 powr (- 106)"
      by (intro mult_right_mono) simp_all
    moreover have "0 < smallest" by (rule smallest_pos)
    ultimately have "smallest / 2 < c * 2 powr (- 106)" by linarith
    with \<open>p * p = 2 powr (- 106)\<close> show ?thesis by simp
  qed
  ultimately show ?thesis by linarith
qed

lemma roundHalfEven_ge_int: "of_int k \<le> z \<Longrightarrow> k \<le> roundHalfEven z"
proof -
  assume "of_int k \<le> z"
  then have "k \<le> \<lfloor>z\<rfloor>" by (simp add: le_floor_iff)
  then show ?thesis by (auto simp: roundHalfEven_def Let_def)
qed

lemma roundHalfEven_le_int: "z \<le> of_int k \<Longrightarrow> roundHalfEven z \<le> k"
proof -
  assume z: "z \<le> of_int k"
  show ?thesis
  proof (cases "z = of_int \<lfloor>z\<rfloor>")
    case True
    then have "roundHalfEven z = \<lfloor>z\<rfloor>"
      by (metis roundHalfEven_of_int)
    with z show ?thesis by (simp add: floor_le_iff)
  next
    case False
    then have "of_int \<lfloor>z\<rfloor> < z" by linarith
    with z have "real_of_int \<lfloor>z\<rfloor> < of_int k" by linarith
    then have "\<lfloor>z\<rfloor> + 1 \<le> k" by simp
    then show ?thesis by (auto simp: roundHalfEven_def Let_def)
  qed
qed

lemma exponent_mono:
  assumes "0 < a" and "a \<le> b"
  shows "exponent a \<le> exponent b"
proof -
  from assms have "log 2 \<bar>a\<bar> \<le> log 2 \<bar>b\<bar>" by simp
  then have "\<lfloor>log 2 \<bar>a\<bar>\<rfloor> \<le> \<lfloor>log 2 \<bar>b\<bar>\<rfloor>" by (rule floor_mono)
  with assms show ?thesis by (simp add: exponent_def)
qed

lemma below_next_binade:
  assumes "0 < y"
  shows "y < 2 powr (of_int (exponent y) + 1)"
proof -
  have "log 2 y < of_int \<lfloor>log 2 y\<rfloor> + 1" by linarith
  also from assms have "\<dots> \<le> of_int (exponent y) + 1"
    by (simp add: exponent_def)
  finally have "log 2 y < of_int (exponent y) + 1" .
  with assms show ?thesis
    by (simp add: log_less_iff)
qed

lemma isDouble_multiple:
  assumes "isDouble y"
  shows "y = of_int (roundHalfEven (y / ulp y)) * ulp y"
  using assms by (simp add: isDouble_def toDouble_def)

lemma toDouble_ge:
  assumes "isDouble y" and "0 \<le> y" and "y \<le> x"
  shows "y \<le> toDouble x"
proof (cases "y = 0")
  case True
  with assms show ?thesis by (simp add: toDouble_nonneg)
next
  case False
  with assms have y: "0 < y" and x: "0 < x" by simp_all
  note le = exponent_mono [OF y assms(3)]
  define m where "m = roundHalfEven (y / ulp y)"
  from isDouble_multiple [OF assms(1)] have ym: "y = of_int m * ulp y"
    by (simp add: m_def)
  show ?thesis
  proof (cases "exponent y = exponent x")
    case True
    then have u: "ulp y = ulp x" by (simp add: ulp_def)
    from ym assms(3) ulp_pos [of x] have "of_int m \<le> x / ulp x"
      by (simp add: u pos_le_divide_eq)
    then have "m \<le> roundHalfEven (x / ulp x)"
      by (rule roundHalfEven_ge_int)
    then have "of_int m * ulp x \<le> of_int (roundHalfEven (x / ulp x)) * ulp x"
      using ulp_pos [of x] by (simp add: mult_right_mono)
    with ym show ?thesis by (simp add: toDouble_def u)
  next
    case False
    with le have lt: "exponent y < exponent x" by simp
    have "- 1022 \<le> exponent y"
      by (simp add: exponent_def)
    with lt x have ex: "exponent x = \<lfloor>log 2 \<bar>x\<bar>\<rfloor>"
      by (auto simp: exponent_def max_def split: if_splits)
    then have "of_int (exponent x) \<le> log 2 x"
      using x by simp
    with x have bx: "2 powr of_int (exponent x) \<le> x"
      by (simp add: le_log_iff)
    have split: "2 powr of_int (exponent x) = 2 powr 52 * ulp x"
      by (simp only: ulp_def powr_add [symmetric]) simp
    have "(2 :: real) powr 52 = of_int (2 ^ 52)"
      by simp
    with bx split ulp_pos [of x] have "of_int (2 ^ 52) \<le> x / ulp x"
      by (simp add: pos_le_divide_eq)
    then have "2 ^ 52 \<le> roundHalfEven (x / ulp x)"
      by (rule roundHalfEven_ge_int)
    then have "real_of_int (2 ^ 52) \<le> of_int (roundHalfEven (x / ulp x))"
      by (simp only: of_int_le_iff)
    then have "of_int (2 ^ 52) * ulp x \<le> of_int (roundHalfEven (x / ulp x)) * ulp x"
      using ulp_pos [of x] by (simp only: mult_right_mono less_imp_le)
    with split have "2 powr of_int (exponent x) \<le> toDouble x"
      by (simp add: toDouble_def)
    moreover from lt have "(2 :: real) powr (of_int (exponent y) + 1) \<le> 2 powr of_int (exponent x)"
      by (intro powr_mono) simp_all
    moreover note below_next_binade [OF y]
    ultimately show ?thesis by linarith
  qed
qed

lemma toDouble_le:
  assumes "isDouble y" and "0 \<le> x" and "x \<le> y"
  shows "toDouble x \<le> y"
proof (cases "x = 0")
  case True
  with assms show ?thesis by simp
next
  case False
  with assms have x: "0 < x" and y: "0 < y" by simp_all
  note le = exponent_mono [OF x assms(3)]
  define m where "m = roundHalfEven (y / ulp y)"
  define n where "n = nat (exponent y - exponent x)"
  from isDouble_multiple [OF assms(1)] have ym: "y = of_int m * ulp y"
    by (simp add: m_def)
  from le have n: "real n = of_int (exponent y) - of_int (exponent x)"
    by (simp add: n_def)
  have "ulp y = 2 powr real n * ulp x"
    by (simp only: ulp_def powr_add [symmetric] n) simp
  also have "2 powr real n = (2 :: real) ^ n"
    by (simp add: powr_realpow)
  finally have "y = of_int (m * 2 ^ n) * ulp x"
    using ym by simp
  with assms(3) ulp_pos [of x] have "x / ulp x \<le> of_int (m * 2 ^ n)"
    by (simp add: pos_divide_le_eq)
  then have "roundHalfEven (x / ulp x) \<le> m * 2 ^ n"
    by (rule roundHalfEven_le_int)
  then have "real_of_int (roundHalfEven (x / ulp x)) \<le> of_int (m * 2 ^ n)"
    by (simp only: of_int_le_iff)
  then have "of_int (roundHalfEven (x / ulp x)) * ulp x \<le> of_int (m * 2 ^ n) * ulp x"
    using ulp_pos [of x] by (simp only: mult_right_mono less_imp_le)
  with \<open>y = of_int (m * 2 ^ n) * ulp x\<close> show ?thesis
    by (simp add: toDouble_def)
qed

section \<open>The archive buffer\<close>

lemma archiveAudio_queue:
  "ARCHIVE_QUEUE (archiveAudio st b now) =
     (if length (ARCHIVE_QUEUE st) < MAX_ARCHIVE_SEGMENTS
      then ARCHIVE_QUEUE st @ [\<lparr>samples = length (heap st), t = now\<rparr>]
      else tl (ARCHIVE_QUEUE st @ [\<lparr>samples = length (heap st), t = now\<rparr>]))"
  by (simp add: archiveAudio_def Let_def updateLog_def)

lemma archiveAudio_heap: "heap (archiveAudio st b now) = heap st @ [b]"
  by (simp add: archiveAudio_def Let_def updateLog_def)

lemma length_appended: "length (appended base evs) = length evs"
  by (induction evs arbitrary: base) simp_all

lemma archiveAudioCalls_heap: "heap (archiveAudioCalls st evs) = heap st @ map fst evs"
  by (induction evs arbitrary: st) (simp_all add: archiveAudio_heap)

text \<open>The queue after any number of callbacks is the tail end of everything it was given.\<close>

lemma archiveAudioCalls_queue:
  "length (ARCHIVE_QUEUE st) \<le> MAX_ARCHIVE_SEGMENTS \<Longrightarrow>
   ARCHIVE_QUEUE (archiveAudioCalls st evs) =
     drop (length (ARCHIVE_QUEUE st) + length evs - MAX_ARCHIVE_SEGMENTS)
       (ARCHIVE_QUEUE st @ appended (length (heap st)) evs)"
proof (induction evs arbitrary: st)
  case Nil
  then show ?case by simp
next
  case (Cons ev evs)
  let ?s = "\<lparr>samples = length (heap st), t = snd ev\<rparr>"
  let ?st = "archiveAudio st (fst ev) (snd ev)"
  show ?case
  proof (cases "length (ARCHIVE_QUEUE st) < MAX_ARCHIVE_SEGMENTS")
    case True
    then have q: "ARCHIVE_QUEUE ?st = ARCHIVE_QUEUE st @ [?s]"
      by (simp add: archiveAudio_queue)
    with True have "length (ARCHIVE_QUEUE ?st) \<le> MAX_ARCHIVE_SEGMENTS" by simp
    from Cons.IH [OF this] show ?thesis
      by (simp add: q archiveAudio_heap del: drop_append)
  next
    case False
    with Cons.prems have full: "length (ARCHIVE_QUEUE st) = MAX_ARCHIVE_SEGMENTS" by simp
    from False have q: "ARCHIVE_QUEUE ?st = tl (ARCHIVE_QUEUE st @ [?s])"
      by (simp add: archiveAudio_queue)
    with full have "length (ARCHIVE_QUEUE ?st) \<le> MAX_ARCHIVE_SEGMENTS" by simp
    from Cons.IH [OF this] have
      "ARCHIVE_QUEUE (archiveAudioCalls ?st evs) =
         drop (length evs) (tl (ARCHIVE_QUEUE st @ [?s]) @ appended (Suc (length (heap st))) evs)"
      by (simp add: q archiveAudio_heap full del: drop_append)
    also have "tl (ARCHIVE_QUEUE st @ [?s]) @ appended (Suc (length (heap st))) evs =
        drop 1 (ARCHIVE_QUEUE st @ ?s # appended (Suc (length (heap st))) evs)"
      by (cases "ARCHIVE_QUEUE st") (simp_all add: drop_Suc)
    finally show ?thesis
      by (simp add: full del: drop_append)
  qed
qed

text \<open>The pushed entries refer to consecutive fresh arrays, so no two of them are equal.\<close>

lemma samples_appended: "map samples (appended base evs) = [base..<base + length evs]"
proof (induction evs arbitrary: base)
  case Nil
  then show ?case by simp
next
  case (Cons ev evs)
  have "[base..<Suc (base + length evs)] = base # [Suc base..<Suc (base + length evs)]"
    by (rule upt_conv_Cons) simp
  with Cons.IH [of "Suc base"] show ?case by (simp del: upt_Suc)
qed

lemma distinct_appended: "distinct (appended base evs)"
proof -
  have "distinct (map samples (appended base evs))"
    by (simp add: samples_appended)
  then show ?thesis by (rule distinct_map [THEN iffD1, THEN conjunct1])
qed

lemma nth_notin_drop:
  assumes "distinct xs" and "i < k" and "k \<le> length xs"
  shows "xs ! i \<notin> set (drop k xs)"
proof
  assume "xs ! i \<in> set (drop k xs)"
  then obtain j where j: "j < length xs - k" and eq: "drop k xs ! j = xs ! i"
    by (auto simp: in_set_conv_nth)
  from j assms have "xs ! (k + j) = xs ! i" and "k + j < length xs" and "i < length xs"
    using eq by simp_all
  with assms(1) have "k + j = i" by (simp add: nth_eq_iff_index_eq)
  with assms(2) show False by simp
qed

text \<open>
  Claim C1. Starting from a queue within capacity (the empty queue of a fresh session
  in particular), after any sequence of calls of \<open>archiveAudio\<close> the queue holds at most
  \<open>MAX_ARCHIVE_SEGMENTS\<close> entries, and it is exactly the last \<open>MAX_ARCHIVE_SEGMENTS\<close> of
  the entries it held and was given, in the order of the calls; the arrays they refer to
  hold the captured blocks. Since the sequence is arbitrary, this holds after each call.
\<close>

theorem archive_never_exceeds_capacity:
  assumes "length (ARCHIVE_QUEUE st) \<le> MAX_ARCHIVE_SEGMENTS"
  shows "length (ARCHIVE_QUEUE (archiveAudioCalls st evs)) \<le> MAX_ARCHIVE_SEGMENTS \<and>
         ARCHIVE_QUEUE (archiveAudioCalls st evs) =
           drop (length (ARCHIVE_QUEUE st) + length evs - MAX_ARCHIVE_SEGMENTS)
             (ARCHIVE_QUEUE st @ appended (length (heap st)) evs) \<and>
         heap (archiveAudioCalls st evs) = heap st @ map fst evs"
proof -
  note q = archiveAudioCalls_queue [OF assms, of evs]
  have "length (ARCHIVE_QUEUE (archiveAudioCalls st evs)) \<le> MAX_ARCHIVE_SEGMENTS"
    using assms by (simp add: q length_appended)
  with q show ?thesis
    by (simp add: archiveAudioCalls_heap)
qed

theorem archive_never_exceeds_capacity_witness:
  "length (ARCHIVE_QUEUE initial) \<le> MAX_ARCHIVE_SEGMENTS \<and>
   length (ARCHIVE_QUEUE (archiveAudioCalls initial (replicate 301 ([1 / 2], 7))))
     \<le> MAX_ARCHIVE_SEGMENTS \<and>
   ARCHIVE_QUEUE (archiveAudioCalls initial (replicate 301 ([1 / 2], 7))) =
     drop (length (ARCHIVE_QUEUE initial) + length (replicate 301 ([1 / 2 :: real], 7 :: int))
            - MAX_ARCHIVE_SEGMENTS)
       (ARCHIVE_QUEUE initial @ appended (length (heap initial)) (replicate 301 ([1 / 2], 7))) \<and>
   heap (archiveAudioCalls initial (replicate 301 ([1 / 2], 7))) =
     heap initial @ map fst (replicate 301 ([1 / 2 :: real], 7 :: int))"
proof -
  have h: "length (ARCHIVE_QUEUE initial) \<le> MAX_ARCHIVE_SEGMENTS"
    by (simp add: initial_def)
  from archive_never_exceeds_capacity [OF h, of "replicate 301 ([1 / 2], 7)"] h
  show ?thesis by blast
qed

text \<open>
  Claim C5. From an empty queue, after \<open>MAX_ARCHIVE_SEGMENTS + 1\<close> calls the entry pushed
  first is no longer in the queue; after 400 calls the queue holds 300 entries, its
  oldest entry is the one pushed by call number 100 (counting from 0), and none of the
  entries of calls 0 to 99 is left.
\<close>

theorem eviction_order:
  assumes "ARCHIVE_QUEUE st = []"
  shows "(length evs = MAX_ARCHIVE_SEGMENTS + 1 \<longrightarrow>
            appended (length (heap st)) evs ! 0 \<notin> set (ARCHIVE_QUEUE (archiveAudioCalls st evs))) \<and>
         (length evs = 400 \<longrightarrow>
            length (ARCHIVE_QUEUE (archiveAudioCalls st evs)) = 300 \<and>
            hd (ARCHIVE_QUEUE (archiveAudioCalls st evs)) = appended (length (heap st)) evs ! 100 \<and>
            (\<forall>i<100. appended (length (heap st)) evs ! i
                \<notin> set (ARCHIVE_QUEUE (archiveAudioCalls st evs))))"
proof -
  let ?all = "appended (length (heap st)) evs"
  have q: "ARCHIVE_QUEUE (archiveAudioCalls st evs) = drop (length evs - MAX_ARCHIVE_SEGMENTS) ?all"
    using archiveAudioCalls_queue [of st evs] assms by simp
  have one: "?all ! 0 \<notin> set (ARCHIVE_QUEUE (archiveAudioCalls st evs))"
    if "length evs = MAX_ARCHIVE_SEGMENTS + 1"
    unfolding q using that
    by (intro nth_notin_drop) (simp_all add: distinct_appended length_appended)
  have many: "length (ARCHIVE_QUEUE (archiveAudioCalls st evs)) = 300 \<and>
      hd (ARCHIVE_QUEUE (archiveAudioCalls st evs)) = ?all ! 100 \<and>
      (\<forall>i<100. ?all ! i \<notin> set (ARCHIVE_QUEUE (archiveAudioCalls st evs)))"
    if len: "length evs = 400"
  proof -
    from len have q': "ARCHIVE_QUEUE (archiveAudioCalls st evs) = drop 100 ?all"
      by (simp add: q MAX_ARCHIVE_SEGMENTS_def)
    have "length (drop 100 ?all) = 300"
      by (simp add: length_appended len)
    moreover have "hd (drop 100 ?all) = ?all ! 100"
      by (rule hd_drop_conv_nth) (simp add: length_appended len)
    moreover have "?all ! i \<notin> set (drop 100 ?all)" if "i < 100" for i
      using that by (intro nth_notin_drop) (simp_all add: distinct_appended length_appended len)
    ultimately show ?thesis
      unfolding q' by blast
  qed
  from one many show ?thesis by blast
qed

text \<open>The scenario of the specification: blocks of 4096 samples, timestamps 100 ms apart.\<close>

theorem eviction_order_witness:
  "ARCHIVE_QUEUE initial = [] \<and>
   length (map (\<lambda>k. (replicate BUFFER_SIZE (0 :: real), 100 * int k)) [0..<301]) = MAX_ARCHIVE_SEGMENTS + 1 \<and>
   appended (length (heap initial)) (map (\<lambda>k. (replicate BUFFER_SIZE 0, 100 * int k)) [0..<301]) ! 0
     \<notin> set (ARCHIVE_QUEUE (archiveAudioCalls initial
           (map (\<lambda>k. (replicate BUFFER_SIZE 0, 100 * int k)) [0..<301]))) \<and>
   length (map (\<lambda>k. (replicate BUFFER_SIZE (0 :: real), 100 * int k)) [0..<400]) = 400 \<and>
   length (ARCHIVE_QUEUE (archiveAudioCalls initial
           (map (\<lambda>k. (replicate BUFFER_SIZE 0, 100 * int k)) [0..<400]))) = 300 \<and>
   hd (ARCHIVE_QUEUE (archiveAudioCalls initial
           (map (\<lambda>k. (replicate BUFFER_SIZE 0, 100 * int k)) [0..<400]))) =
     appended (length (heap initial)) (map (\<lambda>k. (replicate BUFFER_SIZE 0, 100 * int k)) [0..<400]) ! 100 \<and>
   appended (length (heap initial)) (map (\<lambda>k. (replicate BUFFER_SIZE 0, 100 * int k)) [0..<400]) ! 99
     \<notin> set (ARCHIVE_QUEUE (archiveAudioCalls initial
           (map (\<lambda>k. (replicate BUFFER_SIZE 0, 100 * int k)) [0..<400])))"
proof -
  have h0: "ARCHIVE_QUEUE initial = []"
    by (simp add: initial_def)
  have h1: "length (map (\<lambda>k. (replicate BUFFER_SIZE (0 :: real), 100 * int k)) [0..<301])
      = MAX_ARCHIVE_SEGMENTS + 1"
    by (simp add: MAX_ARCHIVE_SEGMENTS_def)
  have h2: "length (map (\<lambda>k. (replicate BUFFER_SIZE (0 :: real), 100 * int k)) [0..<400]) = 400"
    by simp
  have h3: "(99 :: nat) < 100" by simp
  from eviction_order [OF h0, of "map (\<lambda>k. (replicate BUFFER_SIZE 0, 100 * int k)) [0..<301]"]
       eviction_order [OF h0, of "map (\<lambda>k. (replicate BUFFER_SIZE 0, 100 * int k)) [0..<400]"]
       h0 h1 h2 h3
  show ?thesis by blast
qed

section \<open>Selection\<close>

lemma candidateIndices_set:
  "set (candidateIndices q now) =
     {i. i < length q \<and> t (q ! i) \<noteq> 0 \<and> now - t (q ! i) > EXCLUDE_RECENT_MS}"
  by (auto simp: candidateIndices_def)

text \<open>
  Claim C2. When every entry of the queue carries a timestamp (the loop passes over an
  entry whose \<open>t\<close> is zero), the candidate indices are exactly the indices of the entries
  captured more than the exclusion window of 4000 ms before \<open>now\<close>: an entry captured
  within the last 4000 ms is left out, every older one is in.
\<close>

theorem candidateIndices_exclusion:
  assumes "\<forall>seg \<in> set q. t seg \<noteq> 0"
  shows "EXCLUDE_RECENT_MS = 4000 \<and>
         set (candidateIndices q now) = {i. i < length q \<and> EXCLUDE_RECENT_MS < now - t (q ! i)}"
  using assms by (auto simp: candidateIndices_set EXCLUDE_RECENT_MS_def)

text \<open>Timestamps from \<open>now - 5000\<close> to \<open>now\<close>; only the entries older than 4000 ms are candidates.\<close>

theorem candidateIndices_exclusion_witness:
  "list_all (\<lambda>seg. t seg \<noteq> 0) [\<lparr>samples = 0, t = 1000\<rparr>, \<lparr>samples = 1, t = 1999\<rparr>,
       \<lparr>samples = 2, t = 2000\<rparr>, \<lparr>samples = 3, t = 6000\<rparr>] \<and>
   set (candidateIndices [\<lparr>samples = 0, t = 1000\<rparr>, \<lparr>samples = 1, t = 1999\<rparr>, \<lparr>samples = 2, t = 2000\<rparr>,
       \<lparr>samples = 3, t = 6000\<rparr>] 6000) = {0, 1}"
proof -
  let ?q = "[\<lparr>samples = 0, t = 1000\<rparr>, \<lparr>samples = 1, t = 1999\<rparr>, \<lparr>samples = 2, t = 2000\<rparr>,
       \<lparr>samples = 3, t = 6000\<rparr>]"
  have h: "\<forall>seg \<in> set ?q. t seg \<noteq> 0" by simp
  have "{i. i < length ?q \<and> EXCLUDE_RECENT_MS < 6000 - t (?q ! i)} = {0, 1}"
    by (auto simp: EXCLUDE_RECENT_MS_def less_Suc_eq nth_Cons')
  with candidateIndices_exclusion [OF h, of 6000] h show ?thesis by simp
qed


subsection \<open>The fragment length\<close>

lemma toDouble_int: "\<bar>m\<bar> < 2 ^ 53 \<Longrightarrow> toDouble (of_int m) = of_int m"
  using toDouble_exact [of "of_int m" m 0] by simp

lemma fmul_int_4096:
  assumes "\<bar>k\<bar> < 2 ^ 53"
  shows "fmul (of_int k) 4096 = of_int (k * 4096)"
proof -
  have "(2 :: real) powr of_int 12 = 4096"
    by simp
  then have "real_of_int k * 4096 = of_int k * 2 powr of_int 12"
    by (simp only:)
  from toDouble_exact [OF this assms] show ?thesis
    by (simp add: fmul_def)
qed

lemma pow_facts:
  shows "(2 :: real) powr (- 53) = 1 / 2 ^ 53" and "smallest \<le> 1 / 2 ^ 60" and "0 < smallest"
proof -
  show "(2 :: real) powr (- 53) = 1 / 2 ^ 53"
    by (simp add: powr_minus_divide)
  have "smallest \<le> 2 powr (- 60)"
    unfolding smallest_def by (intro powr_mono) simp_all
  then show "smallest \<le> 1 / 2 ^ 60"
    by (simp add: powr_minus_divide)
  show "0 < smallest" by (rule smallest_pos)
qed

lemma quantisation_arith:
  fixes P y x s :: real and k :: int
  assumes ey: "\<bar>y - P\<bar> \<le> P * (1 / 2 ^ 53) + s / 2"
    and ex: "\<bar>x - y / 4096\<bar> \<le> y / 4096 * (1 / 2 ^ 53) + s / 2"
    and ek: "\<bar>real_of_int k - x\<bar> \<le> 1 / 2"
    and P0: "0 \<le> P" and P1: "P \<le> 5 * 2 ^ 60" and y0: "0 \<le> y" and x0: "0 \<le> x"
    and s: "s \<le> 1 / 2 ^ 60" "0 < s"
  shows "\<bar>real_of_int k\<bar> < 2 ^ 53" and "\<bar>real_of_int k * 4096 - P\<bar> < 4096"
proof -
  from s have s1: "s / 2 \<le> 1 / 2 ^ 61" by simp
  from P1 have "P * (1 / 2 ^ 53) \<le> 5 * 2 ^ 60 * (1 / 2 ^ 53)"
    by (intro mult_right_mono) simp_all
  then have Pp: "P * (1 / 2 ^ 53) \<le> 640" by simp
  from ey have yu: "y \<le> P + (P * (1 / 2 ^ 53) + s / 2)" and yl: "P - (P * (1 / 2 ^ 53) + s / 2) \<le> y"
    by linarith+
  from yu Pp s1 P1 have y1: "y \<le> 5 * 2 ^ 60 + 641" by simp
  then have "y / 4096 * (1 / 2 ^ 53) \<le> (5 * 2 ^ 60 + 641) / 4096 * (1 / 2 ^ 53)"
    by (intro mult_right_mono divide_right_mono) simp_all
  then have yp: "y / 4096 * (1 / 2 ^ 53) \<le> 1 / 4" by simp
  from ex have xu: "x \<le> y / 4096 + (y / 4096 * (1 / 2 ^ 53) + s / 2)"
    and xl: "y / 4096 - (y / 4096 * (1 / 2 ^ 53) + s / 2) \<le> x"
    by linarith+
  from ek have ku: "real_of_int k \<le> x + 1 / 2" and kl: "x - 1 / 2 \<le> real_of_int k"
    by linarith+
  from ku xu yp s1 y1 x0 kl show "\<bar>real_of_int k\<bar> < 2 ^ 53"
    by simp
  have "real_of_int k * 4096 - P \<le> (x + 1 / 2) * 4096 - P"
    using ku by simp
  also have "\<dots> \<le> (y / 4096 + (1 / 4 + s / 2) + 1 / 2) * 4096 - P"
    using xu yp by simp
  also have "\<dots> = y - P + 1024 + s * 2048 + 2048"
    by simp
  also have "\<dots> \<le> 640 + s / 2 + 1024 + s * 2048 + 2048"
    using yu Pp by simp
  also have "\<dots> < 4096"
    using s by simp
  finally have up: "real_of_int k * 4096 - P < 4096" .
  have "P - real_of_int k * 4096 \<le> P - (x - 1 / 2) * 4096"
    using kl by simp
  also have "\<dots> \<le> P - (y / 4096 - (1 / 4 + s / 2) - 1 / 2) * 4096"
    using xl yp by simp
  also have "\<dots> = P - y + 1024 + s * 2048 + 2048"
    by simp
  also have "\<dots> \<le> 640 + s / 2 + 1024 + s * 2048 + 2048"
    using yl Pp by simp
  also have "\<dots> < 4096"
    using s by simp
  finally have "P - real_of_int k * 4096 < 4096" .
  with up show "\<bar>real_of_int k * 4096 - P\<bar> < 4096" by linarith
qed

text \<open>
  Claim C7. For every duration from 2 to 5 seconds and every sample rate up to \<open>2 ^ 60\<close> Hz
  the length the code computes, in double arithmetic, is
  \<open>Math.round(durationSec * sampleRate / 4096) * 4096\<close>; it is a multiple of \<open>BUFFER_SIZE\<close>
  and differs from the exact product of duration and rate by less than \<open>BUFFER_SIZE\<close>.
\<close>

theorem segmentLength_quantised:
  assumes "2 \<le> dur" and "dur \<le> 5" and "0 \<le> rate" and "rate \<le> 2 ^ 60"
  shows "segmentLength rate dur = round (fdiv (fmul dur rate) 4096) * 4096 \<and>
         int BUFFER_SIZE dvd segmentLength rate dur \<and>
         \<bar>real_of_int (segmentLength rate dur) - dur * rate\<bar> < real BUFFER_SIZE"
proof -
  define P where "P = dur * rate"
  define y where "y = toDouble P"
  define x where "x = toDouble (y / 4096)"
  define k where "k = round x"
  from assms have P0: "0 \<le> P"
    by (simp add: P_def)
  from assms have "dur * rate \<le> 5 * 2 ^ 60"
    by (intro mult_mono) simp_all
  then have P1: "P \<le> 5 * 2 ^ 60"
    by (simp add: P_def)
  have y0: "0 \<le> y"
    unfolding y_def using P0 by (rule toDouble_nonneg)
  then have x0: "0 \<le> x"
    unfolding x_def by (intro toDouble_nonneg) simp
  from toDouble_error [of P] P0 have ey: "\<bar>y - P\<bar> \<le> P * (1 / 2 ^ 53) + smallest / 2"
    by (simp add: y_def pow_facts(1))
  from toDouble_error [of "y / 4096"] y0 have ex: "\<bar>x - y / 4096\<bar> \<le> y / 4096 * (1 / 2 ^ 53) + smallest / 2"
    by (simp add: x_def pow_facts(1))
  have ek: "\<bar>real_of_int k - x\<bar> \<le> 1 / 2"
    unfolding k_def by (rule of_int_round_abs_le)
  note s = pow_facts(2,3)
  note arith = quantisation_arith [OF ey ex ek P0 P1 y0 x0 s]
  from arith(1) have "real_of_int \<bar>k\<bar> < real_of_int (2 ^ 53)"
    by simp
  then have "\<bar>k\<bar> < 2 ^ 53"
    by (simp only: of_int_less_iff)
  then have exact: "fmul (of_int k) 4096 = of_int (k * 4096)"
    by (rule fmul_int_4096)
  have "segmentLength rate dur = \<lfloor>fmul (of_int k) 4096\<rfloor>"
    by (simp add: segmentLength_def BUFFER_SIZE_def k_def x_def y_def P_def fdiv_def fmul_def)
  also have "\<dots> = k * 4096"
    by (simp only: exact floor_of_int)
  finally have "segmentLength rate dur = k * 4096" .
  with arith(2) show ?thesis
    by (simp add: BUFFER_SIZE_def k_def x_def y_def P_def fdiv_def fmul_def)
qed

text \<open>
  An input at which rounding decides: the rate is 44100 Hz and the duration the double
  next to 2.2755555555555556, which a draw produces. The exact product lies just below
  100352 and is rounded to it, so the quotient is 24.5 and \<open>Math.round\<close> gives 25.
\<close>

lemma durationSec_eq: "durationSec r = toDouble (2 + fmul r 3)"
proof -
  have "toDouble (of_int 3) = of_int 3"
    by (rule toDouble_int) simp
  then have "fsub 5 2 = 3"
    by (simp add: fsub_def)
  then show ?thesis
    by (simp add: durationSec_def fadd_def SEGMENT_MAX_SEC_def SEGMENT_MIN_SEC_def)
qed

lemma durationSec_example: "durationSec (1654655863093159 / 2 ^ 54) = 5124095576030431 / 2 ^ 51"
proof -
  have "toDouble (1654655863093159 / 2 ^ 54 * 3) = 1654655863093159 / 2 ^ 54 * 3"
    by (rule toDouble_exact [of _ 4963967589279477 "- 54"]) (simp_all add: powr_minus_divide)
  then have a: "fmul (1654655863093159 / 2 ^ 54) 3 = 4963967589279477 / 2 ^ 54"
    by (simp add: fmul_def)
  have "toDouble (2 + 4963967589279477 / 2 ^ 54) =
      of_int (roundHalfEven ((2 + 4963967589279477 / 2 ^ 54) / 2 powr (of_int 1 - 52))) *
        2 powr (of_int 1 - 52)"
    by (rule toDouble_eval) (simp_all add: powr_minus_divide)
  also have "\<dots> = 5124095576030431 / 2 ^ 51"
    by (simp add: powr_minus_divide roundHalfEven_def Let_def)
  finally show ?thesis
    by (simp only: durationSec_eq a)
qed

lemma segmentLength_example:
  "fmul (5124095576030431 / 2 ^ 51) 44100 = 100352"
  "fdiv (fmul (5124095576030431 / 2 ^ 51) 44100) 4096 = 49 / 2"
  "segmentLength 44100 (5124095576030431 / 2 ^ 51) = 102400"
proof -
  have "toDouble (5124095576030431 / 2 ^ 51 * 44100) =
      of_int (roundHalfEven (5124095576030431 / 2 ^ 51 * 44100 / 2 powr (of_int 16 - 52))) *
        2 powr (of_int 16 - 52)"
    by (rule toDouble_eval) (simp_all add: powr_minus_divide)
  also have "\<dots> = 100352"
    by (simp add: powr_minus_divide roundHalfEven_def Let_def)
  finally show m: "fmul (5124095576030431 / 2 ^ 51) 44100 = 100352"
    by (simp add: fmul_def)
  have "toDouble (100352 / 4096) = 100352 / 4096"
    by (rule toDouble_exact [of _ 49 "- 1"]) (simp_all add: powr_minus_divide)
  moreover have "fdiv (fmul (5124095576030431 / 2 ^ 51) 44100) 4096 = toDouble (100352 / 4096)"
    by (simp only: fdiv_def m)
  ultimately show d: "fdiv (fmul (5124095576030431 / 2 ^ 51) 44100) 4096 = 49 / 2"
    by simp
  have "round (49 / 2 :: real) = 25"
    by (simp add: round_def)
  moreover have "fmul (of_int 25) 4096 = of_int (25 * 4096)"
    by (rule fmul_int_4096) simp
  moreover have "real BUFFER_SIZE = 4096"
    by (simp add: BUFFER_SIZE_def)
  then have "segmentLength 44100 (5124095576030431 / 2 ^ 51) =
      \<lfloor>fmul (of_int (round (49 / 2 :: real))) 4096\<rfloor>"
    by (simp only: segmentLength_def d)
  ultimately show "segmentLength 44100 (5124095576030431 / 2 ^ 51) = 102400"
    by simp
qed

theorem segmentLength_quantised_witness:
  "(2 :: real) \<le> 5124095576030431 / 2 ^ 51 \<and> (5124095576030431 / 2 ^ 51 :: real) \<le> 5 \<and>
   (0 :: real) \<le> 44100 \<and> (44100 :: real) \<le> 2 ^ 60 \<and>
   segmentLength 44100 (5124095576030431 / 2 ^ 51) = 102400 \<and>
   round (fdiv (fmul (5124095576030431 / 2 ^ 51) 44100) 4096) * 4096 = (102400 :: int) \<and>
   int BUFFER_SIZE dvd segmentLength 44100 (5124095576030431 / 2 ^ 51) \<and>
   \<bar>real_of_int (segmentLength 44100 (5124095576030431 / 2 ^ 51)) - 5124095576030431 / 2 ^ 51 * 44100\<bar>
     < real BUFFER_SIZE"
proof -
  have h: "(2 :: real) \<le> 5124095576030431 / 2 ^ 51" "(5124095576030431 / 2 ^ 51 :: real) \<le> 5"
    "(0 :: real) \<le> 44100" "(44100 :: real) \<le> 2 ^ 60"
    by simp_all
  note q = segmentLength_quantised [OF h]
  from q segmentLength_example(3)
  have "round (fdiv (fmul (5124095576030431 / 2 ^ 51) 44100) 4096) * 4096 = (102400 :: int)"
    by (simp only:)
  with q h segmentLength_example(3) show ?thesis
    by blast
qed

section \<open>The guarantee timer's delay\<close>

text \<open>With a draw (a double in \<open>[0, 1)\<close>) the delay is from 1000 ms up to 30999 ms, or up to 60999 ms.\<close>

lemma nextMs_range:
  assumes "isDouble r" and "0 \<le> r" and "r < 1"
  shows "1000 \<le> nextMs isFirst r" and "nextMs True r \<le> 30999" and "nextMs False r \<le> 60999"
proof -
  from assms(2) have "0 \<le> fmul r 30000" and "0 \<le> fmul r 60000"
    by (simp_all add: fmul_def toDouble_nonneg)
  then have "0 \<le> \<lfloor>fmul r 30000\<rfloor>" and "0 \<le> \<lfloor>fmul r 60000\<rfloor>" by simp_all
  then show "1000 \<le> nextMs isFirst r" by (simp add: nextMs_def)
  from assms have "fmul r 30000 < 30000" and "fmul r 60000 < 60000"
    by (simp_all add: fmul_def scaled_below)
  then have "\<lfloor>fmul r 30000\<rfloor> < 30000" and "\<lfloor>fmul r 60000\<rfloor> < 60000"
    by (simp_all add: floor_less_iff)
  then show "nextMs True r \<le> 30999" and "nextMs False r \<le> 60999"
    by (simp_all add: nextMs_def)
qed

text \<open>The double next to 0.7: the products are rounded up to 21000 and 42000.\<close>

lemma nextMs_example:
  "nextMs True (6305039478318694 / 2 ^ 53) = 22000"
  "nextMs False (6305039478318694 / 2 ^ 53) = 43000"
proof -
  have "toDouble (6305039478318694 / 2 ^ 53 * 30000) =
      of_int (roundHalfEven (6305039478318694 / 2 ^ 53 * 30000 / 2 powr (of_int 14 - 52))) *
        2 powr (of_int 14 - 52)"
    by (rule toDouble_eval) (simp_all add: powr_minus_divide)
  also have "\<dots> = 21000"
    by (simp add: powr_minus_divide roundHalfEven_def Let_def)
  finally show "nextMs True (6305039478318694 / 2 ^ 53) = 22000"
    by (simp add: nextMs_def fmul_def)
  have "toDouble (6305039478318694 / 2 ^ 53 * 60000) =
      of_int (roundHalfEven (6305039478318694 / 2 ^ 53 * 60000 / 2 powr (of_int 15 - 52))) *
        2 powr (of_int 15 - 52)"
    by (rule toDouble_eval) (simp_all add: powr_minus_divide)
  also have "\<dots> = 42000"
    by (simp add: powr_minus_divide roundHalfEven_def Let_def)
  finally show "nextMs False (6305039478318694 / 2 ^ 53) = 43000"
    by (simp add: nextMs_def fmul_def)
qed

text \<open>At 63/64 both products are doubles, so nothing is rounded.\<close>

lemma fmul_63_64:
  "fmul (63 / 64) 30000 = 118125 / 4" "fmul (63 / 64) 60000 = 118125 / 2"
proof -
  have "toDouble (63 / 64 * 30000) = 63 / 64 * 30000"
    by (rule toDouble_exact [of _ 118125 "- 2"]) (simp_all add: powr_minus_divide)
  then show "fmul (63 / 64) 30000 = 118125 / 4"
    by (simp add: fmul_def)
  have "toDouble (63 / 64 * 60000) = 63 / 64 * 60000"
    by (rule toDouble_exact [of _ 118125 "- 1"]) (simp_all add: powr_minus_divide)
  then show "fmul (63 / 64) 60000 = 118125 / 2"
    by (simp add: fmul_def)
qed

text \<open>
  Claim C3 says that a first delay is at most 30000 ms and every later delay at most
  60000 ms, as the comments at the two draws do (\<open>1000..30000 ms\<close>, \<open>1000..60000 ms\<close>).
  The draws add 1000 to a value that already reaches 29999 and 59999: when
  \<open>Math.random()\<close> returns 63/64, where both products are exact, the first delay is
  30531 ms and a later one 60062 ms.
\<close>

theorem guarantee_delay_exceeds_bound:
  "nextMs True (63 / 64) = 30531 \<and> nextMs False (63 / 64) = 60062 \<and>
   \<not> nextMs True (63 / 64) \<le> 30000 \<and> \<not> nextMs False (63 / 64) \<le> 60000"
  by (simp add: nextMs_def fmul_63_64)

section \<open>The playback routine\<close>

subsection \<open>The copy loop\<close>

text \<open>
  When the output channel has the requested length, every write of the loop fits, so
  the loop ends without an exception; it writes to the output channel only.
\<close>

lemma typedArraySet_fits:
  assumes "offset + length source \<le> length target"
  shows "typedArraySet target source offset =
           Inr (take offset target @ source @ drop (offset + length source) target)"
    and "length (take offset target @ source @ drop (offset + length source) target) = length target"
  using assms by (simp_all add: typedArraySet_def)

lemma copyLoop_ok:
  assumes "outputData < length h" and "length (h ! outputData) = len"
  shows "\<exists>h' off. copyLoop q startIndex len outputData i offset h = Inr (h', off) \<and>
           length h' = length h \<and> length (h' ! outputData) = len \<and>
           (\<forall>a. a \<noteq> outputData \<longrightarrow> h' ! a = h ! a)"
  using assms
proof (induction q startIndex len outputData i offset h rule: copyLoop.induct)
  case (1 q startIndex len outputData i offset h)
  note eq = copyLoop.simps [of q startIndex len outputData i offset h]
  show ?case
  proof (cases "offset < len \<and> i < length q")
    case False
    then have "copyLoop q startIndex len outputData i offset h = Inr (h, offset)"
      by (auto simp: eq)
    with "1.prems" show ?thesis by simp
  next
    case go: True
    define segObj where "segObj = q ! ((startIndex + i) mod length q)"
    show ?thesis
    proof (cases "length h \<le> samples segObj")
      case True
      with go have "copyLoop q startIndex len outputData i offset h =
          copyLoop q startIndex len outputData (Suc i) offset h"
        by (simp add: eq segObj_def)
      moreover from "1.IH"(1) [OF go segObj_def True "1.prems"]
      obtain h' off where "copyLoop q startIndex len outputData (Suc i) offset h = Inr (h', off)"
        and "length h' = length h" and "length (h' ! outputData) = len"
        and "\<forall>a. a \<noteq> outputData \<longrightarrow> h' ! a = h ! a"
        by blast
      ultimately show ?thesis by simp
    next
      case False
      define segment where "segment = h ! samples segObj"
      define copyLength where "copyLength = min BUFFER_SIZE (min (len - offset) (length segment))"
      define out where "out = take offset (h ! outputData) @ take copyLength segment @
          drop (offset + length (take copyLength segment)) (h ! outputData)"
      have "copyLength \<le> len - offset"
        by (simp add: copyLength_def)
      with go "1.prems" have fits: "offset + length (take copyLength segment) \<le> length (h ! outputData)"
        by (auto simp: min_def)
      then have set: "typedArraySet (h ! outputData) (take copyLength segment) offset = Inr out"
        and len_out: "length out = len"
        using "1.prems" by (simp_all add: typedArraySet_fits out_def)
      from go False set have step: "copyLoop q startIndex len outputData i offset h =
          copyLoop q startIndex len outputData (Suc i) (offset + copyLength) (h[outputData := out])"
        by (simp add: eq segObj_def [symmetric] segment_def [symmetric] copyLength_def [symmetric] Let_def)
      from "1.prems" len_out have "outputData < length (h[outputData := out])"
        and "length (h[outputData := out] ! outputData) = len"
        by simp_all
      from "1.IH"(2) [OF go segObj_def False segment_def copyLength_def set this]
      obtain h' off where "copyLoop q startIndex len outputData (Suc i) (offset + copyLength)
            (h[outputData := out]) = Inr (h', off)"
        and "length h' = length (h[outputData := out])" and "length (h' ! outputData) = len"
        and "\<forall>a. a \<noteq> outputData \<longrightarrow> h' ! a = h[outputData := out] ! a"
        by blast
      with step show ?thesis by simp
    qed
  qed
qed

text \<open>
  A run of the loop on two short blocks, starting at index 1: the second block is copied
  first, then the first one (the index wraps around), and the rest of the channel stays 0.
\<close>

lemma copyLoop_example:
  "copyLoop [\<lparr>samples = 0, t = 5000\<rparr>, \<lparr>samples = 1, t = 5093\<rparr>] 1 5 2 0 0
     [[1 / 4, - (1 / 4)], [1 / 8, 0], [0, 0, 0, 0, 0]] =
   Inr ([[1 / 4, - (1 / 4)], [1 / 8, 0], [1 / 8, 0, 1 / 4, - (1 / 4), 0]], 4)"
  by (simp add: copyLoop.simps typedArraySet_def BUFFER_SIZE_def Let_def)


text \<open>
  What the loop writes. \<open>blockAt j\<close> stands for the array of the \<open>j\<close>-th entry visited; the
  entries' arrays are allocated and none of them is the output channel. From the state
  \<open>(i, offset)\<close> the loop appends the blocks still to visit, at most \<open>BUFFER_SIZE\<close>
  samples of each, until the channel is full, and leaves the rest of the channel alone.
\<close>

lemma copyLoop_content:
  fixes blockAt :: "nat \<Rightarrow> float32array"
  assumes "outputData < length h" and "length (h ! outputData) = len" and "offset \<le> len"
    and "\<forall>j<length q. samples (q ! ((startIndex + j) mod length q)) < length h \<and>
           samples (q ! ((startIndex + j) mod length q)) \<noteq> outputData \<and>
           h ! samples (q ! ((startIndex + j) mod length q)) = blockAt j"
  shows "\<exists>h' off. copyLoop q startIndex len outputData i offset h = Inr (h', off) \<and>
           off = offset + min (len - offset)
                   (length (concat (map (\<lambda>j. take BUFFER_SIZE (blockAt j)) [i..<length q]))) \<and>
           take off (h' ! outputData) =
             take offset (h ! outputData) @
             take (len - offset) (concat (map (\<lambda>j. take BUFFER_SIZE (blockAt j)) [i..<length q])) \<and>
           drop off (h' ! outputData) = drop off (h ! outputData)"
  using assms
proof (induction q startIndex len outputData i offset h rule: copyLoop.induct)
  case (1 q startIndex len outputData i offset h)
  note eq = copyLoop.simps [of q startIndex len outputData i offset h]
  let ?rest = "\<lambda>i. concat (map (\<lambda>j. take BUFFER_SIZE (blockAt j)) [i..<length q])"
  show ?case
  proof (cases "offset < len \<and> i < length q")
    case False
    then have stop: "copyLoop q startIndex len outputData i offset h = Inr (h, offset)"
      by (auto simp: eq)
    define left where "left = ?rest i"
    have "min (len - offset) (length left) = 0 \<and> take (len - offset) left = []"
    proof (cases "offset < len")
      case True
      with False have "[i..<length q] = []" by simp
      then have "left = []" by (simp only: left_def list.map concat.simps)
      then show ?thesis by simp
    next
      case False
      with "1.prems"(3) have "len - offset = 0" by simp
      then show ?thesis by simp
    qed
    with stop show ?thesis by (simp add: left_def [symmetric])
  next
    case go: True
    define segObj where "segObj = q ! ((startIndex + i) mod length q)"
    define segment where "segment = h ! samples segObj"
    define copyLength where "copyLength = min BUFFER_SIZE (min (len - offset) (length segment))"
    define out where "out = take offset (h ! outputData) @ take copyLength segment @
        drop (offset + length (take copyLength segment)) (h ! outputData)"
    from go "1.prems"(4) have src: "samples segObj < length h" "samples segObj \<noteq> outputData"
      "segment = blockAt i"
      by (simp_all add: segObj_def segment_def)
    then have alloc: "\<not> length h \<le> samples segObj" by simp
    have cl: "copyLength \<le> len - offset" "copyLength \<le> length segment"
      by (simp_all add: copyLength_def)
    then have lc: "length (take copyLength segment) = copyLength" by simp
    from go have "offset < len" by simp
    with cl(1) have p3: "offset + copyLength \<le> len" by linarith
    with "1.prems"(2) have fits: "offset + length (take copyLength segment) \<le> length (h ! outputData)"
      by (simp add: lc)
    then have set: "typedArraySet (h ! outputData) (take copyLength segment) offset = Inr out"
      and len_out: "length out = len"
      using "1.prems" by (simp_all add: typedArraySet_fits out_def)
    from go alloc set have step: "copyLoop q startIndex len outputData i offset h =
        copyLoop q startIndex len outputData (Suc i) (offset + copyLength) (h[outputData := out])"
      by (simp add: eq segObj_def [symmetric] segment_def [symmetric] copyLength_def [symmetric] Let_def)
    let ?h = "h[outputData := out]"
    from "1.prems" len_out have p1: "outputData < length ?h" and p2: "length (?h ! outputData) = len"
      by simp_all
    from "1.prems"(4) have p4: "\<forall>j<length q. samples (q ! ((startIndex + j) mod length q)) < length ?h \<and>
           samples (q ! ((startIndex + j) mod length q)) \<noteq> outputData \<and>
           ?h ! samples (q ! ((startIndex + j) mod length q)) = blockAt j"
      by (auto simp: nth_list_update)
    from "1.IH"(2) [OF go segObj_def alloc segment_def copyLength_def set p1 p2 p3 p4]
    obtain h' off where run: "copyLoop q startIndex len outputData (Suc i) (offset + copyLength) ?h = Inr (h', off)"
      and off: "off = offset + copyLength + min (len - (offset + copyLength)) (length (?rest (Suc i)))"
      and tk: "take off (h' ! outputData) = take (offset + copyLength) (?h ! outputData) @
          take (len - (offset + copyLength)) (?rest (Suc i))"
      and dr: "drop off (h' ! outputData) = drop off (?h ! outputData)"
      by blast
    from "1.prems" have o: "?h ! outputData = out" by simp
    from "1.prems"(2,3) have lo: "length (take offset (h ! outputData)) = offset" by simp
    have "take (min n (length xs)) xs = take n xs" for n and xs :: float32array
      by (cases "n \<le> length xs") (simp_all add: min_def)
    from this [of "min BUFFER_SIZE (len - offset)" segment]
    have "take copyLength segment = take (min BUFFER_SIZE (len - offset)) segment"
      by (simp only: copyLength_def min.assoc)
    then have cs: "take copyLength segment = take (len - offset) (take BUFFER_SIZE (blockAt i))"
      by (simp add: src(3) min.commute)
    from go have rest: "?rest i = take BUFFER_SIZE (blockAt i) @ ?rest (Suc i)"
      by (simp add: upt_conv_Cons)
    define A where "A = take offset (h ! outputData)"
    define C where "C = take copyLength segment"
    define Z where "Z = drop (offset + copyLength) (h ! outputData)"
    have lA: "length A = offset" and lC: "length C = copyLength"
      by (simp_all only: A_def C_def lo lc)
    have outACZ: "out = A @ C @ Z"
      by (simp only: out_def A_def C_def Z_def lc)
    have "take (offset + copyLength) (A @ C @ Z) = A @ C"
      by (simp add: lA lC)
    then have pre: "take (offset + copyLength) out = take offset (h ! outputData) @ take copyLength segment"
      by (simp only: outACZ A_def C_def)
    have post: "drop off out = drop off (h ! outputData)"
    proof -
      from off have "offset + copyLength \<le> off" by simp
      then obtain e where e: "off = offset + copyLength + e"
        by (metis le_Suc_ex)
      have "drop (offset + copyLength + e) (A @ C @ Z) = drop e Z"
        by (simp add: lA lC)
      also have "\<dots> = drop (offset + copyLength + e) (h ! outputData)"
        by (simp add: Z_def add.commute)
      finally show ?thesis
        by (simp only: outACZ e)
    qed
    have off': "off = offset + min (len - offset) (length (?rest i))"
      using off cl(1) by (auto simp: rest copyLength_def src(3) min_def)
    have tk': "take off (h' ! outputData) = take offset (h ! outputData) @ take (len - offset) (?rest i)"
    proof -
      have "take (len - offset) (?rest i) =
          take copyLength segment @ take (len - (offset + copyLength)) (?rest (Suc i))"
        by (auto simp: rest cs copyLength_def src(3) min_def)
      with tk pre o show ?thesis by simp
    qed
    from step run off' tk' dr post o show ?thesis by simp
  qed
qed

text \<open>
  Run on a fresh zero-filled channel appended to the heap, the loop produces the
  fragment of the specification.
\<close>

lemma copyLoop_fragment:
  assumes "list_all (\<lambda>seg. samples seg < length h) q"
  shows "\<exists>h' off. copyLoop q startIndex len (length h) 0 0 (h @ [replicate len 0]) = Inr (h', off) \<and>
           h' ! length h = fragment h q startIndex len"
proof -
  let ?h = "h @ [replicate len 0]"
  let ?block = "\<lambda>j. h ! samples (q ! ((startIndex + j) mod length q))"
  let ?data = "concat (map (\<lambda>j. take BUFFER_SIZE (?block j)) [0..<length q])"
  have src: "\<forall>j<length q. samples (q ! ((startIndex + j) mod length q)) < length ?h \<and>
      samples (q ! ((startIndex + j) mod length q)) \<noteq> length h \<and>
      ?h ! samples (q ! ((startIndex + j) mod length q)) = ?block j"
  proof (intro allI impI)
    fix j assume "j < length q"
    then have "0 < length q" by auto
    then have "(startIndex + j) mod length q < length q" by (rule mod_less_divisor)
    then have "q ! ((startIndex + j) mod length q) \<in> set q" by simp
    with assms have "samples (q ! ((startIndex + j) mod length q)) < length h"
      by (simp add: list_all_iff)
    then show "samples (q ! ((startIndex + j) mod length q)) < length ?h \<and>
      samples (q ! ((startIndex + j) mod length q)) \<noteq> length h \<and>
      ?h ! samples (q ! ((startIndex + j) mod length q)) = ?block j"
      by (simp add: nth_append)
  qed
  have "length h < length ?h" and "length (?h ! length h) = len" and "0 \<le> len"
    by simp_all
  from copyLoop_content [OF this src, of 0]
  obtain h' off where run: "copyLoop q startIndex len (length h) 0 0 ?h = Inr (h', off)"
    and off: "off = min len (length ?data)"
    and tk: "take off (h' ! length h) = take len ?data"
    and dr: "drop off (h' ! length h) = drop off (replicate len 0)"
    by auto
  have "h' ! length h = take off (h' ! length h) @ drop off (h' ! length h)"
    by simp
  also have "\<dots> = take len ?data @ replicate (len - length (take len ?data)) 0"
    by (simp only: tk dr) (simp add: off)
  finally have "h' ! length h = fragment h q startIndex len"
    by (simp add: fragment_def Let_def)
  with run show ?thesis by blast
qed

subsection \<open>The three ways through the routine\<close>

lemma ensureMonitoring_frame [simp]:
  "ARCHIVE_QUEUE (ensureMonitoring st) = ARCHIVE_QUEUE st"
  "heap (ensureMonitoring st) = heap st"
  "started (ensureMonitoring st) = started st"
  "logged (ensureMonitoring st) = logged st"
  "guaranteeTimer (ensureMonitoring st) = guaranteeTimer st"
  by (simp_all add: ensureMonitoring_def)

lemma updateLog_frame [simp]:
  "ARCHIVE_QUEUE (updateLog m st) = ARCHIVE_QUEUE st"
  "heap (updateLog m st) = heap st"
  "started (updateLog m st) = started st"
  "logged (updateLog m st) = logged st @ [m]"
  "guaranteeTimer (updateLog m st) = guaranteeTimer st"
  by (simp_all add: updateLog_def)

lemma buffer_replayNode [simp]: "buffer (replayNode d a) = a"
  by (simp add: replayNode_def)

lemma play_skipped:
  "\<not> canPlay st \<Longrightarrow> playRandomSoraMimi st d now = (updateLog PlaybackSkipped st, None)"
  by (simp add: playRandomSoraMimi_def)

lemma play_raises:
  fixes st d now
  defines "len \<equiv> segmentLength (sampleRate (the (audioContext st))) (durationSec (rDuration d))"
  defines "st3 \<equiv> updateLog (PlaybackLength (durationSec (rDuration d)) len)
     (updateLog (snd (chooseStartIndex (ARCHIVE_QUEUE st) now (rStart d))) (ensureMonitoring st))"
  assumes "canPlay st" and "len \<le> 0"
  shows "playRandomSoraMimi st d now = (st3, Some NotSupportedError)"
  using assms(3,4) unfolding len_def st3_def
  by (simp add: playRandomSoraMimi_def createBuffer_def Let_def case_prod_beta)

lemma play_plays:
  fixes st d now
  defines "len \<equiv> segmentLength (sampleRate (the (audioContext st))) (durationSec (rDuration d))"
  defines "st3 \<equiv> updateLog (PlaybackLength (durationSec (rDuration d)) len)
     (updateLog (snd (chooseStartIndex (ARCHIVE_QUEUE st) now (rStart d))) (ensureMonitoring st))"
  defines "node \<equiv> replayNode d (length (heap st))"
  assumes "canPlay st" and "0 < len"
  shows "\<exists>h2 off.
           playRandomSoraMimi st d now =
             (updateLog PlaybackStarted
                ((updateLog (BufferBuilt (nat len) off) (st3\<lparr>heap := h2\<rparr>))
                   \<lparr>started := started st @ [node]\<rparr>), None) \<and>
           length h2 = Suc (length (heap st)) \<and>
           length (h2 ! length (heap st)) = nat len \<and>
           (\<forall>a<length (heap st). h2 ! a = heap st ! a)"
proof -
  let ?h1 = "heap st @ [replicate (nat len) 0]"
  let ?start = "fst (chooseStartIndex (ARCHIVE_QUEUE st) now (rStart d))"
  have "length (heap st) < length ?h1" and "length (?h1 ! length (heap st)) = nat len"
    by simp_all
  from copyLoop_ok [OF this, of "ARCHIVE_QUEUE st" ?start 0 0]
  obtain h2 off where loop: "copyLoop (ARCHIVE_QUEUE st) ?start (nat len) (length (heap st)) 0 0 ?h1
        = Inr (h2, off)"
    and h2: "length h2 = length ?h1" "length (h2 ! length (heap st)) = nat len"
      "\<forall>a. a \<noteq> length (heap st) \<longrightarrow> h2 ! a = ?h1 ! a"
    by blast
  from assms(4,5) loop h2(2)
  have "playRandomSoraMimi st d now =
      (updateLog PlaybackStarted
         ((updateLog (BufferBuilt (nat len) off) (st3\<lparr>heap := h2\<rparr>))
            \<lparr>started := started st @ [node]\<rparr>), None)"
    unfolding len_def st3_def node_def
    by (simp add: playRandomSoraMimi_def createBuffer_def Let_def case_prod_beta)
  moreover from h2 have "length h2 = Suc (length (heap st))"
    and "\<forall>a<length (heap st). h2 ! a = heap st ! a"
    by (simp_all add: nth_append)
  ultimately show ?thesis using h2(2) by blast
qed

lemma canPlay_iff:
  "canPlay st \<longleftrightarrow> (\<exists>ctx. audioContext st = Some ctx \<and> ctx_state ctx = Running) \<and> ARCHIVE_QUEUE st \<noteq> []"
  by (auto simp: canPlay_def split: option.splits)

lemma isDouble_consts:
  shows "isDouble 2" and "isDouble 3" and "isDouble 5" and "isDouble 2048" and "isDouble 4096"
    and "isDouble (1 / 2)"
proof -
  show "isDouble 2" and "isDouble 3" and "isDouble 5" and "isDouble 2048" and "isDouble 4096"
    using toDouble_int [of 2] toDouble_int [of 3] toDouble_int [of 5] toDouble_int [of 2048]
      toDouble_int [of 4096]
    by (simp_all add: isDouble_def)
  have "toDouble (1 / 2) = 1 / 2"
    by (rule toDouble_exact [of _ 1 "- 1"]) (simp_all add: powr_minus_divide)
  then show "isDouble (1 / 2)"
    by (simp add: isDouble_def)
qed

text \<open>The duration drawn is at least 2 seconds, and at most 5 when the draw is below 1.\<close>

lemma durationSec_range:
  assumes "0 \<le> r"
  shows "2 \<le> durationSec r" and "isDouble r \<Longrightarrow> r < 1 \<Longrightarrow> durationSec r \<le> 5"
proof -
  from assms have m0: "0 \<le> fmul r 3"
    by (simp add: fmul_def toDouble_nonneg)
  then have "2 \<le> toDouble (2 + fmul r 3)"
    by (intro toDouble_ge isDouble_consts) simp_all
  then show "2 \<le> durationSec r"
    by (simp add: durationSec_eq)
  assume "isDouble r" and "r < 1"
  with assms have "fmul r 3 < 3"
    by (simp add: fmul_def scaled_below)
  with m0 have "toDouble (2 + fmul r 3) \<le> 5"
    by (intro toDouble_le isDouble_consts) simp_all
  then show "durationSec r \<le> 5"
    by (simp add: durationSec_eq)
qed

lemma segmentLength_positive:
  assumes "1024 \<le> rate" and "0 \<le> r"
  shows "0 < segmentLength rate (durationSec r)"
proof -
  note d = durationSec_range(1) [OF assms(2)]
  with assms(1) have "2 * 1024 \<le> durationSec r * rate"
    by (intro mult_mono) simp_all
  then have "2048 \<le> fmul (durationSec r) rate"
    unfolding fmul_def by (intro toDouble_ge isDouble_consts) simp_all
  then have "1 / 2 \<le> fdiv (fmul (durationSec r) rate) 4096"
    unfolding fdiv_def by (intro toDouble_ge isDouble_consts) simp_all
  then have "round (1 / 2 :: real) \<le> round (fdiv (fmul (durationSec r) rate) 4096)"
    by (rule round_mono)
  moreover have "round (1 / 2 :: real) = 1"
    by (simp add: round_def)
  ultimately have "1 \<le> round (fdiv (fmul (durationSec r) rate) 4096)"
    by simp
  then have "(1 :: real) \<le> of_int (round (fdiv (fmul (durationSec r) rate) 4096))"
    by simp
  then have "4096 \<le> fmul (of_int (round (fdiv (fmul (durationSec r) rate) 4096))) 4096"
    unfolding fmul_def by (intro toDouble_ge isDouble_consts) simp_all
  then have "4096 \<le> \<lfloor>fmul (of_int (round (fdiv (fmul (durationSec r) rate) 4096))) 4096\<rfloor>"
    by (simp add: le_floor_iff)
  then show ?thesis
    by (simp add: segmentLength_def BUFFER_SIZE_def)
qed

lemma floor_index_in_range:
  assumes "isDouble r" and "0 \<le> r" and "r < 1" and "0 < n"
  shows "nat \<lfloor>fmul r (real n)\<rfloor> < n"
proof -
  from assms have "fmul r (real n) < real n"
    by (simp add: fmul_def scaled_below)
  then have "\<lfloor>fmul r (real n)\<rfloor> < int n" by (simp add: floor_less_iff)
  with assms(4) show ?thesis by simp
qed

lemma play_logs: "length (logged st) < length (logged (fst (playRandomSoraMimi st d now)))"
proof (cases "canPlay st")
  case False
  then show ?thesis by (simp add: play_skipped)
next
  case True
  show ?thesis
  proof (cases "0 < segmentLength (sampleRate (the (audioContext st))) (durationSec (rDuration d))")
    case False
    with True show ?thesis by (simp add: play_raises)
  next
    case pos: True
    from play_plays [OF True pos, of now] obtain h2 :: "float32array list" and off where
      "logged (fst (playRandomSoraMimi st d now)) =
         logged st @ [snd (chooseStartIndex (ARCHIVE_QUEUE st) now (rStart d)),
           PlaybackLength (durationSec (rDuration d))
             (segmentLength (sampleRate (the (audioContext st))) (durationSec (rDuration d))),
           BufferBuilt (nat (segmentLength (sampleRate (the (audioContext st))) (durationSec (rDuration d)))) off,
           PlaybackStarted]"
      by auto
    then show ?thesis by simp
  qed
qed

lemma play_plays_fields:
  assumes "canPlay st"
    and "0 < segmentLength (sampleRate (the (audioContext st))) (durationSec (rDuration d))"
  shows "snd (playRandomSoraMimi st d now) = None"
    and "ARCHIVE_QUEUE (fst (playRandomSoraMimi st d now)) = ARCHIVE_QUEUE st"
    and "started (fst (playRandomSoraMimi st d now)) = started st @
           [replayNode d (length (heap st))]"
    and "length (heap (fst (playRandomSoraMimi st d now))) = Suc (length (heap st))"
    and "length (heap (fst (playRandomSoraMimi st d now)) ! length (heap st)) =
           nat (segmentLength (sampleRate (the (audioContext st))) (durationSec (rDuration d)))"
    and "\<forall>a<length (heap st). heap (fst (playRandomSoraMimi st d now)) ! a = heap st ! a"
    and "\<exists>off. logged (fst (playRandomSoraMimi st d now)) =
           logged st @ [snd (chooseStartIndex (ARCHIVE_QUEUE st) now (rStart d)),
             PlaybackLength (durationSec (rDuration d))
               (segmentLength (sampleRate (the (audioContext st))) (durationSec (rDuration d))),
             BufferBuilt (nat (segmentLength (sampleRate (the (audioContext st)))
               (durationSec (rDuration d)))) off,
             PlaybackStarted]"
proof -
  from play_plays [OF assms, of now] obtain h2 :: "float32array list" and off where
    eq: "playRandomSoraMimi st d now =
      (updateLog PlaybackStarted
         ((updateLog (BufferBuilt (nat (segmentLength (sampleRate (the (audioContext st)))
               (durationSec (rDuration d)))) off)
            ((updateLog (PlaybackLength (durationSec (rDuration d))
                (segmentLength (sampleRate (the (audioContext st))) (durationSec (rDuration d))))
               (updateLog (snd (chooseStartIndex (ARCHIVE_QUEUE st) now (rStart d)))
                 (ensureMonitoring st)))\<lparr>heap := h2\<rparr>))
            \<lparr>started := started st @
               [replayNode d (length (heap st))]\<rparr>), None)"
    and h2: "length h2 = Suc (length (heap st))"
      "length (h2 ! length (heap st)) =
         nat (segmentLength (sampleRate (the (audioContext st))) (durationSec (rDuration d)))"
      "\<forall>a<length (heap st). h2 ! a = heap st ! a"
    by blast
  show "snd (playRandomSoraMimi st d now) = None"
    and "ARCHIVE_QUEUE (fst (playRandomSoraMimi st d now)) = ARCHIVE_QUEUE st"
    and "started (fst (playRandomSoraMimi st d now)) = started st @
           [replayNode d (length (heap st))]"
    by (simp_all add: eq updateLog_def)
  have heap: "heap (fst (playRandomSoraMimi st d now)) = h2"
    by (simp add: eq updateLog_def)
  from h2 show "length (heap (fst (playRandomSoraMimi st d now))) = Suc (length (heap st))"
    and "length (heap (fst (playRandomSoraMimi st d now)) ! length (heap st)) =
           nat (segmentLength (sampleRate (the (audioContext st))) (durationSec (rDuration d)))"
    and "\<forall>a<length (heap st). heap (fst (playRandomSoraMimi st d now)) ! a = heap st ! a"
    by (simp_all only: heap)
  show "\<exists>off. logged (fst (playRandomSoraMimi st d now)) =
           logged st @ [snd (chooseStartIndex (ARCHIVE_QUEUE st) now (rStart d)),
             PlaybackLength (durationSec (rDuration d))
               (segmentLength (sampleRate (the (audioContext st))) (durationSec (rDuration d))),
             BufferBuilt (nat (segmentLength (sampleRate (the (audioContext st)))
               (durationSec (rDuration d)))) off,
             PlaybackStarted]"
    by (rule exI [of _ off]) (simp add: eq updateLog_def)
qed

text \<open>When the references of the queue are allocated, the channel played is the fragment.\<close>

lemma play_fragment:
  assumes "canPlay st"
    and "0 < segmentLength (sampleRate (the (audioContext st))) (durationSec (rDuration d))"
    and "allocated st"
  shows "heap (fst (playRandomSoraMimi st d now)) ! length (heap st) =
           fragment (heap st) (ARCHIVE_QUEUE st)
             (fst (chooseStartIndex (ARCHIVE_QUEUE st) now (rStart d)))
             (nat (segmentLength (sampleRate (the (audioContext st))) (durationSec (rDuration d))))"
proof -
  let ?len = "segmentLength (sampleRate (the (audioContext st))) (durationSec (rDuration d))"
  let ?start = "fst (chooseStartIndex (ARCHIVE_QUEUE st) now (rStart d))"
  from assms(3) have "list_all (\<lambda>seg. samples seg < length (heap st)) (ARCHIVE_QUEUE st)"
    by (simp add: allocated_def)
  from copyLoop_fragment [OF this, of ?start "nat ?len"]
  obtain h' off where loop: "copyLoop (ARCHIVE_QUEUE st) ?start (nat ?len) (length (heap st)) 0 0
        (heap st @ [replicate (nat ?len) 0]) = Inr (h', off)"
    and frag: "h' ! length (heap st) = fragment (heap st) (ARCHIVE_QUEUE st) ?start (nat ?len)"
    by blast
  from assms(1,2) loop have "heap (fst (playRandomSoraMimi st d now)) = h'"
    by (simp add: playRandomSoraMimi_def createBuffer_def Let_def case_prod_beta)
  with frag show ?thesis by simp
qed

text \<open>
  Whatever path the routine takes, the queue and the arrays that existed are as before,
  and a replay it starts plays an array allocated by this very call.
\<close>

lemma play_frame:
  shows "ARCHIVE_QUEUE (fst (playRandomSoraMimi st d now)) = ARCHIVE_QUEUE st"
    and "\<forall>a<length (heap st). heap (fst (playRandomSoraMimi st d now)) ! a = heap st ! a"
    and "length (heap st) \<le> length (heap (fst (playRandomSoraMimi st d now)))"
    and "take (length (started st)) (started (fst (playRandomSoraMimi st d now))) = started st"
    and "\<forall>node \<in> set (drop (length (started st)) (started (fst (playRandomSoraMimi st d now)))).
           buffer node = length (heap st) \<and>
           buffer node < length (heap (fst (playRandomSoraMimi st d now)))"
proof -
  consider (skip) "\<not> canPlay st"
    | (raise) "canPlay st"
        "segmentLength (sampleRate (the (audioContext st))) (durationSec (rDuration d)) \<le> 0"
    | (play) "canPlay st"
        "0 < segmentLength (sampleRate (the (audioContext st))) (durationSec (rDuration d))"
    by linarith
  then have "ARCHIVE_QUEUE (fst (playRandomSoraMimi st d now)) = ARCHIVE_QUEUE st \<and>
     (\<forall>a<length (heap st). heap (fst (playRandomSoraMimi st d now)) ! a = heap st ! a) \<and>
     length (heap st) \<le> length (heap (fst (playRandomSoraMimi st d now))) \<and>
     take (length (started st)) (started (fst (playRandomSoraMimi st d now))) = started st \<and>
     (\<forall>node \<in> set (drop (length (started st)) (started (fst (playRandomSoraMimi st d now)))).
           buffer node = length (heap st) \<and>
           buffer node < length (heap (fst (playRandomSoraMimi st d now))))"
  proof cases
    case skip
    then show ?thesis by (simp add: play_skipped)
  next
    case raise
    then show ?thesis by (simp add: play_raises)
  next
    case play
    note f = play_plays_fields [OF play, of now]
    show ?thesis
      by (simp add: f(2,3,4)) (use f(6) in blast)
  qed
  then show "ARCHIVE_QUEUE (fst (playRandomSoraMimi st d now)) = ARCHIVE_QUEUE st"
    and "\<forall>a<length (heap st). heap (fst (playRandomSoraMimi st d now)) ! a = heap st ! a"
    and "length (heap st) \<le> length (heap (fst (playRandomSoraMimi st d now)))"
    and "take (length (started st)) (started (fst (playRandomSoraMimi st d now))) = started st"
    and "\<forall>node \<in> set (drop (length (started st)) (started (fst (playRandomSoraMimi st d now)))).
           buffer node = length (heap st) \<and>
           buffer node < length (heap (fst (playRandomSoraMimi st d now)))"
    by blast+
qed

subsection \<open>The fallback index\<close>

lemma chooseStartIndex_relaxed:
  "candidateIndices q now = [] \<Longrightarrow>
   chooseStartIndex q now r = (nat \<lfloor>fmul r (real (length q))\<rfloor>,
     CandidatesRelaxed (nat \<lfloor>fmul r (real (length q))\<rfloor>) (length q))"
  by (simp add: chooseStartIndex_def Let_def)

text \<open>
  Ten entries, all recent, and the double next to 0.7 as the draw: the product is
  rounded up to 7, and 7 is the index chosen.
\<close>

lemma chooseStartIndex_example:
  "chooseStartIndex (replicate 10 \<lparr>samples = 0, t = 5000\<rparr>) 6000 (6305039478318694 / 2 ^ 53) =
     (7, CandidatesRelaxed 7 10)"
proof -
  have "toDouble (6305039478318694 / 2 ^ 53 * 10) =
      of_int (roundHalfEven (6305039478318694 / 2 ^ 53 * 10 / 2 powr (of_int 2 - 52))) *
        2 powr (of_int 2 - 52)"
    by (rule toDouble_eval) (simp_all add: powr_minus_divide)
  also have "\<dots> = 7"
    by (simp add: powr_minus_divide roundHalfEven_def Let_def)
  finally have "fmul (6305039478318694 / 2 ^ 53) (real (10 :: nat)) = 7"
    by (simp add: fmul_def)
  moreover have "candidateIndices (replicate 10 \<lparr>samples = 0, t = 5000\<rparr>) 6000 = []"
    by (simp add: candidateIndices_def EXCLUDE_RECENT_MS_def filter_empty_conv)
  ultimately show ?thesis
    by (simp add: chooseStartIndex_relaxed)
qed

lemma length_fragment: "length (fragment h q startIndex len) = len"
  by (simp add: fragment_def Let_def)

text \<open>
  Claim C6. In a running session with a non-empty queue whose entries are all within the
  exclusion window (the candidate list is empty), the routine does not fail. The start
  index is the draw times the size of the queue, as the code rounds the product, rounded
  down; it lies in the full range of the queue and the product is the exact one up to
  the rounding of one double operation. The relaxation is passed to \<open>updateLog\<close>, no
  exception leaves the routine, the queue is unchanged, and one replay is started whose
  channel has the computed positive length and holds the fragment: the blocks of the
  queue from the start index on, wrapping around, cut at that length. The draws are
  values of \<open>Math.random()\<close> (doubles, at least 0 and below 1), the sample rate is at
  least 1024 Hz, and the references of the queue are allocated.
\<close>

theorem selection_falls_back:
  fixes st d now
  defines "n \<equiv> length (ARCHIVE_QUEUE st)"
  defines "k \<equiv> nat \<lfloor>fmul (rStart d) (real (length (ARCHIVE_QUEUE st)))\<rfloor>"
  defines "st' \<equiv> fst (playRandomSoraMimi st d now)"
  assumes "audioContext st = Some ctx" and "ctx_state ctx = Running" and "1024 \<le> sampleRate ctx"
    and "ARCHIVE_QUEUE st \<noteq> []" and "candidateIndices (ARCHIVE_QUEUE st) now = []"
    and "isDouble (rStart d)" and "0 \<le> rStart d" and "rStart d < 1" and "0 \<le> rDuration d"
    and "allocated st"
  shows "chooseStartIndex (ARCHIVE_QUEUE st) now (rStart d) = (k, CandidatesRelaxed k n) \<and>
         k < n \<and>
         \<bar>fmul (rStart d) (real n) - rStart d * real n\<bar>
           \<le> rStart d * real n * 2 powr (- 53) + smallest / 2 \<and>
         snd (playRandomSoraMimi st d now) = None \<and>
         CandidatesRelaxed k n \<in> set (logged st') \<and>
         length (started st') = Suc (length (started st)) \<and>
         buffer (last (started st')) = length (heap st) \<and>
         0 < segmentLength (sampleRate ctx) (durationSec (rDuration d)) \<and>
         heap st' ! buffer (last (started st')) =
           fragment (heap st) (ARCHIVE_QUEUE st) k
             (nat (segmentLength (sampleRate ctx) (durationSec (rDuration d)))) \<and>
         length (heap st' ! buffer (last (started st'))) =
           nat (segmentLength (sampleRate ctx) (durationSec (rDuration d))) \<and>
         ARCHIVE_QUEUE st' = ARCHIVE_QUEUE st"
proof -
  from assms(4,5,7) have can: "canPlay st"
    by (simp add: canPlay_iff)
  from assms(4,6,12) have pos: "0 < segmentLength (sampleRate (the (audioContext st))) (durationSec (rDuration d))"
    by (simp add: segmentLength_positive)
  note f = play_plays_fields [OF can pos, of now, folded st'_def]
  note relaxed = chooseStartIndex_relaxed [OF assms(8)]
  have choose: "chooseStartIndex (ARCHIVE_QUEUE st) now (rStart d) = (k, CandidatesRelaxed k n)"
    by (simp add: relaxed k_def n_def)
  from assms(7,9,10,11) have "k < n"
    unfolding k_def n_def by (intro floor_index_in_range) simp_all
  moreover from toDouble_error [of "rStart d * real n"] assms(10)
  have "\<bar>fmul (rStart d) (real n) - rStart d * real n\<bar>
      \<le> rStart d * real n * 2 powr (- 53) + smallest / 2"
    by (simp add: fmul_def abs_mult)
  moreover from f(7) choose have "CandidatesRelaxed k n \<in> set (logged st')"
    by auto
  moreover from f(3) have "length (started st') = Suc (length (started st))"
    and last: "buffer (last (started st')) = length (heap st)"
    by simp_all
  moreover from play_fragment [OF can pos assms(13), of now] choose assms(4) last
  have "heap st' ! buffer (last (started st')) =
      fragment (heap st) (ARCHIVE_QUEUE st) k
        (nat (segmentLength (sampleRate ctx) (durationSec (rDuration d))))"
    by (simp add: st'_def)
  moreover from f(5) last assms(4)
  have "length (heap st' ! buffer (last (started st'))) =
      nat (segmentLength (sampleRate ctx) (durationSec (rDuration d)))"
    by simp
  moreover from pos assms(4) have "0 < segmentLength (sampleRate ctx) (durationSec (rDuration d))"
    by simp
  ultimately show ?thesis
    using choose f(1,2) by simp
qed

lemma durationSec_half: "durationSec (1 / 2) = 7 / 2"
proof -
  have "toDouble (1 / 2 * 3) = 1 / 2 * 3"
    by (rule toDouble_exact [of _ 3 "- 1"]) (simp_all add: powr_minus_divide)
  then have a: "fmul (1 / 2) 3 = 3 / 2"
    by (simp add: fmul_def)
  have b: "toDouble (7 / 2) = 7 / 2"
    by (rule toDouble_exact [of _ 7 "- 1"]) (simp_all add: powr_minus_divide)
  show ?thesis
    by (simp add: durationSec_eq a b)
qed

lemma segmentLength_44100_half: "segmentLength 44100 (durationSec (1 / 2)) = 155648"
proof -
  have "toDouble (7 / 2 * 44100) = 7 / 2 * 44100"
    using toDouble_int [of 154350] by simp
  then have m: "fmul (7 / 2) 44100 = 154350"
    by (simp add: fmul_def)
  have "toDouble (154350 / 4096) = 154350 / 4096"
    by (rule toDouble_exact [of _ 77175 "- 11"]) (simp_all add: powr_minus_divide)
  then have d: "fdiv 154350 4096 = 77175 / 2048"
    by (simp add: fdiv_def)
  have "round (77175 / 2048 :: real) = 38"
    by (simp add: round_def)
  moreover have "fmul (of_int 38) 4096 = of_int (38 * 4096)"
    by (rule fmul_int_4096) simp
  moreover have "real BUFFER_SIZE = 4096"
    by (simp add: BUFFER_SIZE_def)
  then have "segmentLength 44100 (durationSec (1 / 2)) =
      \<lfloor>fmul (of_int (round (77175 / 2048 :: real))) 4096\<rfloor>"
    by (simp only: segmentLength_def durationSec_half m d)
  ultimately show ?thesis by simp
qed

theorem selection_falls_back_witness:
  "audioContext young_session = Some \<lparr>ctx_state = Running, sampleRate = 44100\<rparr> \<and>
   ARCHIVE_QUEUE young_session \<noteq> [] \<and>
   candidateIndices (ARCHIVE_QUEUE young_session) 6000 = [] \<and>
   isDouble (rStart middle_draws) \<and> allocated young_session \<and>
   chooseStartIndex (ARCHIVE_QUEUE young_session) 6000 (rStart middle_draws) = (1, CandidatesRelaxed 1 2) \<and>
   snd (playRandomSoraMimi young_session middle_draws 6000) = None \<and>
   CandidatesRelaxed 1 2 \<in> set (logged (fst (playRandomSoraMimi young_session middle_draws 6000))) \<and>
   length (started (fst (playRandomSoraMimi young_session middle_draws 6000))) = 1 \<and>
   heap (fst (playRandomSoraMimi young_session middle_draws 6000)) !
     buffer (last (started (fst (playRandomSoraMimi young_session middle_draws 6000)))) =
     [1 / 8, 0, 1 / 4, - (1 / 4)] @ replicate 155644 0"
proof -
  have fields: "ARCHIVE_QUEUE young_session = [\<lparr>samples = 0, t = 5000\<rparr>, \<lparr>samples = 1, t = 5093\<rparr>]"
    "heap young_session = [[1 / 4, - (1 / 4)], [1 / 8, 0]]" "started young_session = []"
    "audioContext young_session = Some \<lparr>ctx_state = Running, sampleRate = 44100\<rparr>"
    by (simp_all add: young_session_def initial_def)
  have draws: "rStart middle_draws = 1 / 2" "rDuration middle_draws = 1 / 2"
    by (simp_all add: middle_draws_def)
  have h1: "ctx_state \<lparr>ctx_state = Running, sampleRate = 44100\<rparr> = Running"
    and h2: "1024 \<le> sampleRate \<lparr>ctx_state = Running, sampleRate = 44100\<rparr>"
    and h3: "ARCHIVE_QUEUE young_session \<noteq> []"
    and h5: "0 \<le> rStart middle_draws" and h6: "rStart middle_draws < 1"
    and h7: "0 \<le> rDuration middle_draws"
    by (simp_all add: fields draws)
  have h4: "candidateIndices (ARCHIVE_QUEUE young_session) 6000 = []"
    by (simp add: candidateIndices_def fields EXCLUDE_RECENT_MS_def)
  have h8: "isDouble (rStart middle_draws)"
    by (simp add: draws isDouble_consts)
  have h9: "allocated young_session"
    by (simp add: allocated_def fields)
  have one: "fmul (1 / 2) 2 = 1"
    using toDouble_int [of 1] by (simp add: fmul_def)
  note main = selection_falls_back [OF fields(4) h1 h2 h3 h4 h8 h5 h6 h7 h9]
  from main
  have rest: "chooseStartIndex (ARCHIVE_QUEUE young_session) 6000 (rStart middle_draws) = (1, CandidatesRelaxed 1 2) \<and>
     snd (playRandomSoraMimi young_session middle_draws 6000) = None \<and>
     CandidatesRelaxed 1 2 \<in> set (logged (fst (playRandomSoraMimi young_session middle_draws 6000))) \<and>
     length (started (fst (playRandomSoraMimi young_session middle_draws 6000))) = 1 \<and>
     heap (fst (playRandomSoraMimi young_session middle_draws 6000)) !
       buffer (last (started (fst (playRandomSoraMimi young_session middle_draws 6000)))) =
       [1 / 8, 0, 1 / 4, - (1 / 4)] @ replicate 155644 0"
    by (auto simp: fields draws one segmentLength_44100_half numeral_2_eq_2
        fragment_def Let_def BUFFER_SIZE_def upt_conv_Cons)
  from fields(4) h3 h4 h8 h9 rest show ?thesis
    by (intro conjI) simp_all
qed

section \<open>Playback and the archive\<close>

lemma archiveAudio_samples:
  "samples ` set (ARCHIVE_QUEUE (archiveAudio st b now)) \<subseteq>
     samples ` set (ARCHIVE_QUEUE st) \<union> {length (heap st)}"
proof -
  have "set (tl xs) \<subseteq> set xs" for xs :: "segment list"
    by (cases xs) auto
  from this [of "ARCHIVE_QUEUE st @ [\<lparr>samples = length (heap st), t = now\<rparr>]"]
  have "set (ARCHIVE_QUEUE (archiveAudio st b now)) \<subseteq>
      set (ARCHIVE_QUEUE st) \<union> {\<lparr>samples = length (heap st), t = now\<rparr>}"
    by (simp add: archiveAudio_queue)
  then have "samples ` set (ARCHIVE_QUEUE (archiveAudio st b now)) \<subseteq>
      samples ` (set (ARCHIVE_QUEUE st) \<union> {\<lparr>samples = length (heap st), t = now\<rparr>})"
    by (rule image_mono)
  then show ?thesis by simp
qed

lemma archiveAudioCalls_samples:
  "samples ` set (ARCHIVE_QUEUE (archiveAudioCalls st evs)) \<subseteq>
     samples ` set (ARCHIVE_QUEUE st) \<union> {a. length (heap st) \<le> a}"
proof (induction evs arbitrary: st)
  case Nil
  then show ?case by simp
next
  case (Cons ev evs)
  let ?st = "archiveAudio st (fst ev) (snd ev)"
  have "samples ` set (ARCHIVE_QUEUE ?st) \<subseteq>
      samples ` set (ARCHIVE_QUEUE st) \<union> {a. length (heap st) \<le> a}"
    using archiveAudio_samples [of st "fst ev" "snd ev"] by auto
  moreover have "{a. length (heap ?st) \<le> a} \<subseteq> {a. length (heap st) \<le> a}"
    by (auto simp: archiveAudio_heap)
  moreover note Cons.IH [of ?st]
  ultimately have "samples ` set (ARCHIVE_QUEUE (archiveAudioCalls ?st evs)) \<subseteq>
      samples ` set (ARCHIVE_QUEUE st) \<union> {a. length (heap st) \<le> a}"
    by (meson Un_least Un_upper1 le_supI2 order_trans)
  then show ?case by simp
qed

text \<open>The references of the queue never dangle: this holds at load time and is kept by both operations.\<close>

lemma allocated_initial: "allocated initial"
  by (simp add: allocated_def initial_def)

lemma allocated_archiveAudio:
  assumes "allocated st"
  shows "allocated (archiveAudio st b now)"
proof -
  have "samples seg < length (heap (archiveAudio st b now))"
    if "seg \<in> set (ARCHIVE_QUEUE (archiveAudio st b now))" for seg
  proof -
    from that archiveAudio_samples [of st b now]
    have "samples seg \<in> samples ` set (ARCHIVE_QUEUE st) \<or> samples seg = length (heap st)"
      by auto
    with assms show ?thesis
      by (auto simp: allocated_def list_all_iff archiveAudio_heap less_Suc_eq)
  qed
  then show ?thesis
    by (simp add: allocated_def list_all_iff)
qed

lemma allocated_play:
  assumes "allocated st"
  shows "allocated (fst (playRandomSoraMimi st d now))"
proof -
  note frame = play_frame [of st d now]
  from assms frame(3) show ?thesis
    by (auto simp: allocated_def list_all_iff frame(1))
qed

text \<open>
  Claim C9. A run of the playback routine leaves the queue as it was, entry by entry,
  and the samples of every retained entry are the same before and after. The channel
  of a replay it starts is a newly allocated array, different from every array the
  queue refers to; whatever is captured later (evictions included), that channel keeps
  its contents and never becomes an array of the queue.
\<close>

theorem fragment_is_a_private_copy:
  fixes st d now
  defines "st' \<equiv> fst (playRandomSoraMimi st d now)"
  assumes "allocated st"
  shows "ARCHIVE_QUEUE st' = ARCHIVE_QUEUE st \<and>
         (\<forall>seg \<in> set (ARCHIVE_QUEUE st). heap st' ! samples seg = heap st ! samples seg) \<and>
         (\<forall>node \<in> set (drop (length (started st)) (started st')).
            buffer node < length (heap st') \<and>
            buffer node \<notin> samples ` set (ARCHIVE_QUEUE st') \<and>
            heap (archiveAudioCalls st' evs) ! buffer node = heap st' ! buffer node \<and>
            buffer node \<notin> samples ` set (ARCHIVE_QUEUE (archiveAudioCalls st' evs)))"
proof -
  note frame = play_frame [of st d now, folded st'_def]
  from assms(2) have old: "samples seg < length (heap st)" if "seg \<in> set (ARCHIVE_QUEUE st)" for seg
    using that by (simp add: allocated_def list_all_iff)
  have kept: "heap st' ! samples seg = heap st ! samples seg" if "seg \<in> set (ARCHIVE_QUEUE st)" for seg
    using frame(2) old [OF that] by blast
  have fresh: "buffer node < length (heap st') \<and>
      buffer node \<notin> samples ` set (ARCHIVE_QUEUE st') \<and>
      heap (archiveAudioCalls st' evs) ! buffer node = heap st' ! buffer node \<and>
      buffer node \<notin> samples ` set (ARCHIVE_QUEUE (archiveAudioCalls st' evs))"
    if "node \<in> set (drop (length (started st)) (started st'))" for node
  proof -
    from frame(5) that have at: "buffer node = length (heap st)" and lt: "buffer node < length (heap st')"
      by blast+
    have notin: "buffer node \<notin> samples ` set (ARCHIVE_QUEUE st')"
    proof
      assume "buffer node \<in> samples ` set (ARCHIVE_QUEUE st')"
      then obtain seg where "seg \<in> set (ARCHIVE_QUEUE st)" and "samples seg = buffer node"
        by (auto simp: frame(1))
      with old [of seg] at show False by simp
    qed
    from lt have same: "heap (archiveAudioCalls st' evs) ! buffer node = heap st' ! buffer node"
      by (simp add: archiveAudioCalls_heap nth_append)
    have "buffer node \<notin> samples ` set (ARCHIVE_QUEUE (archiveAudioCalls st' evs))"
    proof
      assume "buffer node \<in> samples ` set (ARCHIVE_QUEUE (archiveAudioCalls st' evs))"
      with archiveAudioCalls_samples [of st' evs]
      have "buffer node \<in> samples ` set (ARCHIVE_QUEUE st') \<or> length (heap st') \<le> buffer node"
        by auto
      with notin lt show False by simp
    qed
    with lt notin same show ?thesis by simp
  qed
  from frame(1) kept fresh show ?thesis by simp
qed

theorem fragment_is_a_private_copy_witness:
  "allocated young_session \<and>
   ARCHIVE_QUEUE (fst (playRandomSoraMimi young_session middle_draws 6000)) =
     [\<lparr>samples = 0, t = 5000\<rparr>, \<lparr>samples = 1, t = 5093\<rparr>] \<and>
   heap (fst (playRandomSoraMimi young_session middle_draws 6000)) ! 0 = [1 / 4, - (1 / 4)] \<and>
   heap (fst (playRandomSoraMimi young_session middle_draws 6000)) ! 1 = [1 / 8, 0] \<and>
   buffer (last (started (fst (playRandomSoraMimi young_session middle_draws 6000)))) = 2 \<and>
   2 \<notin> samples ` set (ARCHIVE_QUEUE (fst (playRandomSoraMimi young_session middle_draws 6000))) \<and>
   heap (archiveAudioCalls (fst (playRandomSoraMimi young_session middle_draws 6000)) [([1], 7000)]) ! 2 =
     heap (fst (playRandomSoraMimi young_session middle_draws 6000)) ! 2"
proof -
  let ?st' = "fst (playRandomSoraMimi young_session middle_draws 6000)"
  have fields: "ARCHIVE_QUEUE young_session = [\<lparr>samples = 0, t = 5000\<rparr>, \<lparr>samples = 1, t = 5093\<rparr>]"
    "heap young_session = [[1 / 4, - (1 / 4)], [1 / 8, 0]]" "started young_session = []"
    "audioContext young_session = Some \<lparr>ctx_state = Running, sampleRate = 44100\<rparr>"
    by (simp_all add: young_session_def initial_def)
  have h: "allocated young_session"
    by (simp add: allocated_def fields)
  have can: "canPlay young_session"
    by (simp add: canPlay_def fields)
  have pos: "0 < segmentLength (sampleRate (the (audioContext young_session)))
      (durationSec (rDuration middle_draws))"
    by (rule segmentLength_positive) (simp_all add: fields middle_draws_def)
  from play_plays_fields(3) [OF can pos, of 6000]
  have "\<exists>node. started ?st' = [node] \<and> buffer node = 2"
    by (simp add: fields)
  then obtain node where node: "started ?st' = [node]" "buffer node = 2"
    by blast
  then have mem: "node \<in> set (drop (length (started young_session)) (started ?st'))"
    by (simp add: fields)
  have segs: "\<lparr>samples = 0, t = 5000\<rparr> \<in> set (ARCHIVE_QUEUE young_session)"
    "\<lparr>samples = 1, t = 5093\<rparr> \<in> set (ARCHIVE_QUEUE young_session)"
    by (simp_all add: fields)
  from fragment_is_a_private_copy [OF h, of middle_draws 6000 "[([1], 7000)]"] mem segs node h
  show ?thesis
    by (auto simp: fields)
qed

text \<open>
  Claim C10. Called without an audio context, with a context that is not running, or
  with an empty queue, the routine returns at once: it reports the skip to \<open>updateLog\<close>
  and nothing else changes; no fragment is selected, no replay is started, the queue and
  the arrays are untouched, and no exception is raised.
\<close>

theorem play_is_noop_when_not_ready:
  assumes "audioContext st = None \<or> (\<exists>ctx. audioContext st = Some ctx \<and> ctx_state ctx \<noteq> Running)
           \<or> ARCHIVE_QUEUE st = []"
  shows "playRandomSoraMimi st d now = (st\<lparr>logged := logged st @ [PlaybackSkipped]\<rparr>, None) \<and>
         ARCHIVE_QUEUE (fst (playRandomSoraMimi st d now)) = ARCHIVE_QUEUE st \<and>
         heap (fst (playRandomSoraMimi st d now)) = heap st \<and>
         started (fst (playRandomSoraMimi st d now)) = started st"
proof -
  from assms have "\<not> canPlay st" by (auto simp: canPlay_iff)
  then show ?thesis by (simp add: play_skipped updateLog_def)
qed

theorem play_is_noop_when_not_ready_witness:
  "ARCHIVE_QUEUE initial = [] \<and>
   playRandomSoraMimi initial middle_draws 6000 = (initial\<lparr>logged := logged initial @ [PlaybackSkipped]\<rparr>, None) \<and>
   audioContext (young_session\<lparr>audioContext := Some \<lparr>ctx_state = Suspended, sampleRate = 44100\<rparr>\<rparr>)
     = Some \<lparr>ctx_state = Suspended, sampleRate = 44100\<rparr> \<and>
   started (fst (playRandomSoraMimi
      (young_session\<lparr>audioContext := Some \<lparr>ctx_state = Suspended, sampleRate = 44100\<rparr>\<rparr>) middle_draws 6000)) = [] \<and>
   ARCHIVE_QUEUE (fst (playRandomSoraMimi
      (young_session\<lparr>audioContext := Some \<lparr>ctx_state = Suspended, sampleRate = 44100\<rparr>\<rparr>) middle_draws 6000))
     = [\<lparr>samples = 0, t = 5000\<rparr>, \<lparr>samples = 1, t = 5093\<rparr>]"
proof -
  let ?st = "young_session\<lparr>audioContext := Some \<lparr>ctx_state = Suspended, sampleRate = 44100\<rparr>\<rparr>"
  have h1: "ARCHIVE_QUEUE initial = []" by (simp add: initial_def)
  have h2: "audioContext ?st = Some \<lparr>ctx_state = Suspended, sampleRate = 44100\<rparr>" by simp
  have facts: "started ?st = []" "ARCHIVE_QUEUE ?st = [\<lparr>samples = 0, t = 5000\<rparr>, \<lparr>samples = 1, t = 5093\<rparr>]"
    by (simp_all add: young_session_def initial_def)
  from h1 have a1: "audioContext initial = None \<or>
      (\<exists>ctx. audioContext initial = Some ctx \<and> ctx_state ctx \<noteq> Running) \<or> ARCHIVE_QUEUE initial = []"
    by simp
  from h2 have a2: "audioContext ?st = None \<or>
      (\<exists>ctx. audioContext ?st = Some ctx \<and> ctx_state ctx \<noteq> Running) \<or> ARCHIVE_QUEUE ?st = []"
    by simp
  from play_is_noop_when_not_ready [OF a1, of middle_draws 6000]
       play_is_noop_when_not_ready [OF a2, of middle_draws 6000] h1 h2 facts
  show ?thesis by simp
qed

section \<open>The two triggers\<close>

text \<open>
  Claim C4. A tick of the probabilistic loop calls the playback routine exactly when its
  draw is below \<open>TRIGGER_PROBABILITY\<close> and the queue holds more than 10 entries; otherwise
  the tick does nothing. Since the routine always reports to \<open>updateLog\<close>, the tick
  changes the state in the first case and only then.
\<close>

theorem random_trigger_fires_iff:
  "randomTriggerTick st randomValue d now =
     (if randomValue < TRIGGER_PROBABILITY st \<and> 10 < length (ARCHIVE_QUEUE st)
      then playRandomSoraMimi st d now else (st, None)) \<and>
   (fst (randomTriggerTick st randomValue d now) \<noteq> st) =
     (randomValue < TRIGGER_PROBABILITY st \<and> 10 < length (ARCHIVE_QUEUE st))"
proof -
  have "fst (playRandomSoraMimi st d now) \<noteq> st"
    using play_logs [of st d now] by auto
  then show ?thesis by (simp add: randomTriggerTick_def)
qed

text \<open>
  Claim C8. Whenever the guarantee timer fires, it is set again, with a delay drawn as
  for every timer but the first: when the guarded call was made and returned, when the
  guard was not met, and when the call raised an exception (which leaves the callback
  only after the timer has been set).
\<close>

theorem guarantee_fire_reschedules:
  "guaranteeTimer (fst (guaranteeTimerFired st d now r)) = Some (nextMs False r) \<and>
   snd (guaranteeTimerFired st d now r) = (if canPlay st then snd (playRandomSoraMimi st d now) else None)"
proof -
  have "guaranteeTimer (scheduleNextGuaranteedTrigger False s r) = Some (nextMs False r)" for s
    by (simp add: scheduleNextGuaranteedTrigger_def Let_def)
  then show ?thesis
    by (simp add: guaranteeTimerFired_def canPlay_def case_prod_beta split: option.splits)
qed

text \<open>A fire whose playback attempt raises: the next timer is pending all the same.\<close>

lemma guarantee_fire_after_raise:
  "snd (guaranteeTimerFired tiny_rate_session middle_draws 6000 (1 / 2)) = Some NotSupportedError \<and>
   guaranteeTimer (fst (guaranteeTimerFired tiny_rate_session middle_draws 6000 (1 / 2))) = Some 31000"
proof -
  have can: "canPlay tiny_rate_session"
    by (simp add: canPlay_def tiny_rate_session_def young_session_def initial_def)
  have m: "fmul (7 / 2) 100 = 350"
    using toDouble_int [of 350] by (simp add: fmul_def)
  have "toDouble (350 / 4096) = 350 / 4096"
    by (rule toDouble_exact [of _ 175 "- 11"]) (simp_all add: powr_minus_divide)
  then have d: "fdiv 350 4096 = 175 / 2048"
    by (simp add: fdiv_def)
  have "round (175 / 2048 :: real) = 0"
    by (simp add: round_def)
  moreover have "real BUFFER_SIZE = 4096"
    by (simp add: BUFFER_SIZE_def)
  then have "segmentLength 100 (durationSec (1 / 2)) =
      \<lfloor>fmul (of_int (round (175 / 2048 :: real))) 4096\<rfloor>"
    by (simp only: segmentLength_def durationSec_half m d)
  ultimately have "segmentLength 100 (durationSec (1 / 2)) = 0"
    by (simp add: fmul_def)
  then have "segmentLength (sampleRate (the (audioContext tiny_rate_session)))
      (durationSec (rDuration middle_draws)) \<le> 0"
    by (simp add: tiny_rate_session_def middle_draws_def)
  from play_raises [OF can this, of 6000]
  have "snd (playRandomSoraMimi tiny_rate_session middle_draws 6000) = Some NotSupportedError"
    by simp
  moreover have "audioContext tiny_rate_session = Some \<lparr>ctx_state = Running, sampleRate = 100\<rparr>"
    and "ARCHIVE_QUEUE tiny_rate_session \<noteq> []"
    by (simp_all add: tiny_rate_session_def young_session_def initial_def)
  moreover have "fmul (1 / 2) 60000 = 30000"
    using toDouble_int [of 30000] by (simp add: fmul_def)
  then have "guaranteeTimer (scheduleNextGuaranteedTrigger False s (1 / 2)) = Some 31000" for s
    by (simp add: scheduleNextGuaranteedTrigger_def Let_def nextMs_def)
  ultimately show ?thesis
    by (simp add: guaranteeTimerFired_def case_prod_beta)
qed

end
